theory Spec2Isabelle
  imports Main "HOL-Library.AList"
begin

section \<open>The file system and the StreamingFile primitive (cache.go)\<close>

text \<open>
  Byte strings and Go strings are \<open>string\<close> (a list of 8-bit characters); sizes and
  offsets are Go's \<open>int64\<close>, modelled as \<open>int\<close> (every size in the program is a byte
  count of a file on disk, far below \<open>2^63\<close>); time is an \<open>int\<close> (nanoseconds).

  The file system maps a path to the content of the file linked there. A file is
  identified with its path: a write through the handle of a file that has been unlinked
  meanwhile is not visible in the model. \<open>budget\<close> is the environment: the number of
  bytes the file system still accepts before a write comes back short with an error
  (\<open>None\<close>: writes never fail).
\<close>

record FS =
  files :: "string \<rightharpoonup> string"
  budget :: "nat option"

definition os_Create :: "FS \<Rightarrow> string \<Rightarrow> FS" where
  \<comment> \<open>\<open>os.Create\<close>: creates the file or truncates it.\<close>
  "os_Create fs p = fs\<lparr>files := (files fs)(p \<mapsto> [])\<rparr>"

definition os_Remove :: "FS \<Rightarrow> string \<Rightarrow> FS" where
  "os_Remove fs p = fs\<lparr>files := (files fs)(p := None)\<rparr>"

definition os_Stat :: "FS \<Rightarrow> string \<Rightarrow> int option" where
  \<comment> \<open>\<open>os.Stat(p)\<close> followed by \<open>info.Size()\<close>; \<open>None\<close> is the error.\<close>
  "os_Stat fs p = map_option (\<lambda>c. int (length c)) (files fs p)"

definition file_Write :: "FS \<Rightarrow> string \<Rightarrow> string \<Rightarrow> FS \<times> nat \<times> bool" where
  \<comment> \<open>\<open>(*os.File).Write\<close>: the number of bytes written, and whether it failed.\<close>
  "file_Write fs p bs =
     (let n = (case budget fs of None \<Rightarrow> length bs | Some b \<Rightarrow> min b (length bs))
      in (fs\<lparr>files := (case files fs p of
                          None \<Rightarrow> files fs
                        | Some c \<Rightarrow> (files fs)(p \<mapsto> c @ take n bs)),
              budget := map_option (\<lambda>b. b - n) (budget fs)\<rparr>,
          n, n < length bs))"

record StreamingFile =
  sf_filePath :: string
  sf_size :: int
  sf_done :: bool
  sf_err :: "string option"

definition NewStreamingFile :: "FS \<Rightarrow> string \<Rightarrow> StreamingFile \<times> FS" where
  \<comment> \<open>The success branch; the caller decides whether \<open>os.Create\<close> fails.\<close>
  "NewStreamingFile fs p =
     (\<lparr>sf_filePath = p, sf_size = 0, sf_done = False, sf_err = None\<rparr>, os_Create fs p)"

definition sf_Write :: "StreamingFile \<Rightarrow> FS \<Rightarrow> string \<Rightarrow> (StreamingFile \<times> FS) \<times> nat \<times> bool" where
  "sf_Write sf fs bs =
     (if sf_done sf then ((sf, fs), 0, True)
      else (case file_Write fs (sf_filePath sf) bs of
              (fs', n, failed) \<Rightarrow> ((sf\<lparr>sf_size := sf_size sf + int n\<rparr>, fs'), n, failed)))"

definition sf_Complete :: "StreamingFile \<Rightarrow> StreamingFile" where
  "sf_Complete sf = sf\<lparr>sf_done := True\<rparr>"

definition sf_Abort :: "StreamingFile \<Rightarrow> FS \<Rightarrow> StreamingFile \<times> FS" where
  "sf_Abort sf fs =
     (sf\<lparr>sf_done := True, sf_err := Some ''download aborted''\<rparr>, os_Remove fs (sf_filePath sf))"

definition sf_Size :: "StreamingFile \<Rightarrow> int" where
  "sf_Size sf = sf_size sf"

text \<open>Sequences of the three writer operations on one StreamingFile.\<close>

datatype sf_op = SfWrite string | SfComplete | SfAbort

fun sf_apply :: "StreamingFile \<times> FS \<Rightarrow> sf_op \<Rightarrow> StreamingFile \<times> FS" where
  "sf_apply (sf, fs) (SfWrite bs) = fst (sf_Write sf fs bs)"
| "sf_apply (sf, fs) SfComplete = (sf_Complete sf, fs)"
| "sf_apply (sf, fs) SfAbort = sf_Abort sf fs"

fun sf_run :: "StreamingFile \<times> FS \<Rightarrow> sf_op list \<Rightarrow> StreamingFile \<times> FS" where
  "sf_run s [] = s"
| "sf_run s (x # xs) = sf_run (sf_apply s x) xs"

definition sf_inv :: "StreamingFile \<times> FS \<Rightarrow> bool" where
  "sf_inv s = (case s of (sf, fs) \<Rightarrow>
     sf_err sf = None \<or> (sf_done sf \<and> files fs (sf_filePath sf) = None))"

section \<open>Go's strings and strconv\<close>

text \<open>
  \<open>strings.HasPrefix\<close>, \<open>TrimPrefix\<close>, \<open>TrimSuffix\<close> and \<open>Split\<close> (with a one-byte
  separator), \<open>strconv.ParseInt(s, 10, 64)\<close> (an optional sign, then decimal digits only;
  a value outside \<open>int64\<close> is an error) and \<open>strconv.FormatInt(i, 10)\<close>, which is also
  what \<open>fmt.Sprintf\<close> prints for \<open>%d\<close>.
\<close>

type_synonym error = "string option"

definition HasPrefix :: "string \<Rightarrow> string \<Rightarrow> bool" where
  "HasPrefix s pre = (take (length pre) s = pre)"

definition TrimPrefix :: "string \<Rightarrow> string \<Rightarrow> string" where
  "TrimPrefix s pre = (if HasPrefix s pre then drop (length pre) s else s)"

definition TrimSuffix :: "string \<Rightarrow> string \<Rightarrow> string" where
  "TrimSuffix s suf =
     (if length suf \<le> length s \<and> drop (length s - length suf) s = suf
      then take (length s - length suf) s else s)"

fun Split :: "string \<Rightarrow> char \<Rightarrow> string list" where
  "Split [] c = [[]]"
| "Split (x # xs) c =
     (if x = c then [] # Split xs c
      else (case Split xs c of [] \<Rightarrow> [[x]] | p # ps \<Rightarrow> (x # p) # ps))"

definition digit_val :: "char \<Rightarrow> nat option" where
  "digit_val c =
     (let n = (of_char c :: nat) in if 48 \<le> n \<and> n \<le> 57 then Some (n - 48) else None)"

fun parse_digits :: "int \<Rightarrow> string \<Rightarrow> int option" where
  "parse_digits acc [] = Some acc"
| "parse_digits acc (c # cs) =
     (case digit_val c of None \<Rightarrow> None | Some d \<Rightarrow> parse_digits (acc * 10 + int d) cs)"

definition ParseInt :: "string \<Rightarrow> int option" where
  "ParseInt s =
     (case s of
        [] \<Rightarrow> None
      | c # cs \<Rightarrow>
          let neg = (c = CHR ''-'');
              body = (if c = CHR ''+'' \<or> c = CHR ''-'' then cs else s)
          in if body = [] then None
             else (case parse_digits 0 body of
                     None \<Rightarrow> None
                   | Some n \<Rightarrow>
                       if neg then (if n \<le> 9223372036854775808 then Some (- n) else None)
                       else (if n \<le> 9223372036854775807 then Some n else None)))"

definition digit_char :: "nat \<Rightarrow> char" where
  "digit_char d = char_of (48 + d)"

fun FormatUint :: "nat \<Rightarrow> string" where
  "FormatUint n =
     (if n < 10 then [digit_char n] else FormatUint (n div 10) @ [digit_char (n mod 10)])"

declare FormatUint.simps [simp del]

definition FormatInt :: "int \<Rightarrow> string" where
  "FormatInt i = (if i < 0 then CHR ''-'' # FormatUint (nat (- i)) else FormatUint (nat i))"

section \<open>The response writer and Range requests (proxy.go)\<close>

text \<open>
  \<open>http.ResponseWriter\<close> as the handler sees it: the header map, the status (\<open>None\<close>
  until \<open>WriteHeader\<close> or the first \<open>Write\<close>), the body written so far, and the
  environment \<open>rw_accept\<close>: the number of bytes the client still accepts before a
  write fails (\<open>None\<close>: the client never disconnects). \<open>io.CopyBuffer\<close> is one write
  of the whole source: with this writer the chunking of the copy is not observable.
\<close>

record ResponseWriter =
  rw_header :: "(string \<times> string) list"
  rw_status :: "nat option"
  rw_body :: string
  rw_accept :: "nat option"

definition hdr_Set :: "ResponseWriter \<Rightarrow> string \<Rightarrow> string \<Rightarrow> ResponseWriter" where
  "hdr_Set w k v = w\<lparr>rw_header := AList.update k v (rw_header w)\<rparr>"

definition hdr_Get :: "ResponseWriter \<Rightarrow> string \<Rightarrow> string option" where
  "hdr_Get w k = map_of (rw_header w) k"

definition rw_WriteHeader :: "ResponseWriter \<Rightarrow> nat \<Rightarrow> ResponseWriter" where
  "rw_WriteHeader w code = (if rw_status w = None then w\<lparr>rw_status := Some code\<rparr> else w)"

definition rw_Write :: "ResponseWriter \<Rightarrow> string \<Rightarrow> ResponseWriter \<times> nat \<times> bool" where
  "rw_Write w bs =
     (let w1 = rw_WriteHeader w 200;
          n = (case rw_accept w1 of None \<Rightarrow> length bs | Some b \<Rightarrow> min b (length bs))
      in (w1\<lparr>rw_body := rw_body w1 @ take n bs,
              rw_accept := map_option (\<lambda>b. b - n) (rw_accept w1)\<rparr>,
          n, n < length bs))"

definition hdr_Del :: "ResponseWriter \<Rightarrow> string \<Rightarrow> ResponseWriter" where
  "hdr_Del w k = w\<lparr>rw_header := AList.delete k (rw_header w)\<rparr>"

definition http_Error :: "ResponseWriter \<Rightarrow> string \<Rightarrow> nat \<Rightarrow> ResponseWriter" where
  \<comment> \<open>\<open>http.Error\<close> of \<open>net/http\<close>: it deletes \<open>Content-Length\<close>, sets the two headers,
      writes the status and the message with a newline.\<close>
  "http_Error w msg code =
     (let w0 = hdr_Del w ''Content-Length'';
          w1 = hdr_Set w0 ''Content-Type'' ''text/plain; charset=utf-8'';
          w2 = hdr_Set w1 ''X-Content-Type-Options'' ''nosniff'';
          w3 = rw_WriteHeader w2 code
      in fst (rw_Write w3 (msg @ [CHR 0x0A])))"

definition io_CopyBuffer :: "ResponseWriter \<Rightarrow> string \<Rightarrow> ResponseWriter \<times> bool" where
  "io_CopyBuffer w bs =
     (if bs = [] then (w, False)
      else (case rw_Write w bs of (w', n, failed) \<Rightarrow> (w', failed)))"

definition parseRange :: "string \<Rightarrow> int \<Rightarrow> (int \<times> int) option" where
  "parseRange rangeHeader totalSize =
     (if \<not> HasPrefix rangeHeader ''bytes='' then None
      else (case Split (TrimPrefix rangeHeader ''bytes='') CHR ''-'' of
              [p0, p1] \<Rightarrow>
                (case (if p0 = [] then
                         (case ParseInt p1 of
                            None \<Rightarrow> None
                          | Some n \<Rightarrow>
                              Some (if totalSize - n < 0 then 0 else totalSize - n, totalSize - 1))
                       else
                         (case ParseInt p0 of
                            None \<Rightarrow> None
                          | Some start \<Rightarrow>
                              if p1 = [] then Some (start, totalSize - 1)
                              else (case ParseInt p1 of
                                      None \<Rightarrow> None
                                    | Some e \<Rightarrow> Some (start, e))))
                 of None \<Rightarrow> None
                  | Some (start, e) \<Rightarrow>
                      if start > e \<or> start \<ge> totalSize then None
                      else Some (start, if e \<ge> totalSize then totalSize - 1 else e))
            | _ \<Rightarrow> None))"

text \<open>
  The second half of \<open>parseRange\<close> on its own, from the two fields of the split
  on: it is \<open>parseRange\<close> after the prefix check and the split (lemma
  \<open>parseRange_bytes\<close>).
\<close>

definition range_fields :: "string \<Rightarrow> string \<Rightarrow> int \<Rightarrow> (int \<times> int) option" where
  "range_fields p0 p1 S =
     (case (if p0 = [] then
              (case ParseInt p1 of
                 None \<Rightarrow> None
               | Some n \<Rightarrow> Some (if S - n < 0 then 0 else S - n, S - 1))
            else
              (case ParseInt p0 of
                 None \<Rightarrow> None
               | Some start \<Rightarrow>
                   if p1 = [] then Some (start, S - 1)
                   else (case ParseInt p1 of None \<Rightarrow> None | Some e \<Rightarrow> Some (start, e))))
      of None \<Rightarrow> None
       | Some (start, e) \<Rightarrow>
           if start > e \<or> start \<ge> S then None
           else Some (start, if e \<ge> S then S - 1 else e))"

definition serveRangeFromFile ::
    "ResponseWriter \<Rightarrow> string \<Rightarrow> int \<Rightarrow> string \<Rightarrow> ResponseWriter \<times> error" where
  "serveRangeFromFile w file totalSize rangeHeader =
     (case parseRange rangeHeader totalSize of
        None \<Rightarrow>
          (http_Error (hdr_Set w ''Content-Range'' (''bytes */'' @ FormatInt totalSize))
             ''Range Not Satisfiable'' 416, None)
      | Some (start, e) \<Rightarrow>
          (let len = e - start + 1;
               w1 = hdr_Set w ''Content-Range''
                      (''bytes '' @ FormatInt start @ ''-'' @ FormatInt e @ ''/'' @ FormatInt totalSize);
               w2 = hdr_Set w1 ''Content-Length'' (FormatInt len);
               w3 = rw_WriteHeader w2 206
           in if start < 0 then (w3, Some ''seek: invalid argument'')
              else (case io_CopyBuffer w3 (take (nat len) (drop (nat start) file)) of
                      (w4, failed) \<Rightarrow> (w4, if failed then Some ''write response'' else None))))"

text \<open>
  What a client observes of a response: a 416 with \<open>Content-Range: bytes */S\<close>, and a
  206 whose \<open>Content-Range\<close> and \<open>Content-Length\<close> describe \<open>[s, e]\<close> and whose body
  is the bytes of the file at the offsets \<open>s, \<dots>, e\<close>.
\<close>

definition is_416 :: "ResponseWriter \<times> error \<Rightarrow> int \<Rightarrow> bool" where
  "is_416 r S = (rw_status (fst r) = Some 416
     \<and> hdr_Get (fst r) ''Content-Range'' = Some (''bytes */'' @ FormatInt S))"

definition is_206 :: "ResponseWriter \<times> error \<Rightarrow> string \<Rightarrow> int \<Rightarrow> int \<Rightarrow> int \<Rightarrow> bool" where
  "is_206 r file S s e = (rw_status (fst r) = Some 206
     \<and> hdr_Get (fst r) ''Content-Range'' =
         Some (''bytes '' @ FormatInt s @ ''-'' @ FormatInt e @ ''/'' @ FormatInt S)
     \<and> hdr_Get (fst r) ''Content-Length'' = Some (FormatInt (e - s + 1))
     \<and> rw_body (fst r) = map (\<lambda>i. file ! i) [nat s ..< nat e + 1]
     \<and> snd r = None)"

definition fresh_writer :: "ResponseWriter" where
  "fresh_writer = \<lparr>rw_header = [], rw_status = None, rw_body = [], rw_accept = None\<rparr>"

section \<open>The expirable LRU\<close>

text \<open>
  \<open>fileCache\<close> and \<open>notFoundCache\<close> are \<open>expirable.LRU\<close> values of the library
  \<open>github.com/hashicorp/golang-lru/v2/expirable\<close>, which is not part of the repository.
  The model keeps what cache.go relies on. The items are listed from the most recently
  used to the least recently used, each with its expiry time. \<open>Get\<close> and \<open>Peek\<close> do
  not return an item whose expiry time has passed; \<open>Get\<close> moves the item to the front;
  \<open>Add\<close> of a present key replaces the value, renews the expiry time and moves the item
  to the front, without an eviction; \<open>Add\<close> of a new key evicts the oldest item when the
  capacity (0: unlimited) is exceeded; \<open>Remove\<close> and \<open>RemoveOldest\<close> evict; \<open>Keys\<close> lists
  the keys that have not expired, oldest first; a background routine evicts expired
  items (\<open>lru_deleteExpired\<close>). Every operation returns the evicted items, for which the
  owner runs the eviction callback. A time to live of zero or less means ten years.
\<close>

record ('k, 'v) LRU =
  lru_size :: nat
  lru_ttl :: int
  lru_items :: "('k \<times> 'v \<times> int) list"

definition noEvictionTTL :: int where
  "noEvictionTTL = 3600000000000 * 24 * 365 * 10"

definition NewLRU :: "nat \<Rightarrow> int \<Rightarrow> ('k, 'v) LRU" where
  "NewLRU n ttl =
     \<lparr>lru_size = n, lru_ttl = (if ttl \<le> 0 then noEvictionTTL else ttl), lru_items = []\<rparr>"

definition lru_del :: "'k \<Rightarrow> ('k \<times> 'v \<times> int) list \<Rightarrow> ('k \<times> 'v \<times> int) list" where
  "lru_del k xs = filter (\<lambda>x. fst x \<noteq> k) xs"

definition lru_Get :: "int \<Rightarrow> ('k, 'v) LRU \<Rightarrow> 'k \<Rightarrow> ('k, 'v) LRU \<times> 'v option" where
  "lru_Get now l k =
     (case map_of (lru_items l) k of
        None \<Rightarrow> (l, None)
      | Some (v, exp) \<Rightarrow>
          if now > exp then (l, None)
          else (l\<lparr>lru_items := (k, v, exp) # lru_del k (lru_items l)\<rparr>, Some v))"

definition lru_Peek :: "int \<Rightarrow> ('k, 'v) LRU \<Rightarrow> 'k \<Rightarrow> 'v option" where
  "lru_Peek now l k =
     (case map_of (lru_items l) k of
        None \<Rightarrow> None
      | Some (v, exp) \<Rightarrow> if now > exp then None else Some v)"

definition lru_Add ::
    "int \<Rightarrow> ('k, 'v) LRU \<Rightarrow> 'k \<Rightarrow> 'v \<Rightarrow> ('k, 'v) LRU \<times> ('k \<times> 'v) list" where
  "lru_Add now l k v =
     (case map_of (lru_items l) k of
        Some old \<Rightarrow> (l\<lparr>lru_items := (k, v, now + lru_ttl l) # lru_del k (lru_items l)\<rparr>, [])
      | None \<Rightarrow>
          (let xs = (k, v, now + lru_ttl l) # lru_items l
           in if lru_size l > 0 \<and> length xs > lru_size l
              then (l\<lparr>lru_items := butlast xs\<rparr>, [(fst (last xs), fst (snd (last xs)))])
              else (l\<lparr>lru_items := xs\<rparr>, [])))"

definition lru_Remove :: "('k, 'v) LRU \<Rightarrow> 'k \<Rightarrow> ('k, 'v) LRU \<times> ('k \<times> 'v) list" where
  "lru_Remove l k =
     (case map_of (lru_items l) k of
        None \<Rightarrow> (l, [])
      | Some (v, exp) \<Rightarrow> (l\<lparr>lru_items := lru_del k (lru_items l)\<rparr>, [(k, v)]))"

definition lru_RemoveOldest :: "('k, 'v) LRU \<Rightarrow> ('k, 'v) LRU \<times> ('k \<times> 'v) option" where
  "lru_RemoveOldest l =
     (if lru_items l = [] then (l, None)
      else (l\<lparr>lru_items := butlast (lru_items l)\<rparr>,
            Some (fst (last (lru_items l)), fst (snd (last (lru_items l))))))"


definition lru_Len :: "('k, 'v) LRU \<Rightarrow> nat" where
  "lru_Len l = length (lru_items l)"

definition lru_deleteExpired :: "int \<Rightarrow> ('k, 'v) LRU \<Rightarrow> ('k, 'v) LRU \<times> ('k \<times> 'v) list" where
  "lru_deleteExpired now l =
     (l\<lparr>lru_items := filter (\<lambda>x. \<not> now > snd (snd x)) (lru_items l)\<rparr>,
      map (\<lambda>x. (fst x, fst (snd x))) (filter (\<lambda>x. now > snd (snd x)) (lru_items l)))"

section \<open>The cache (cache.go)\<close>

record Config =
  UpstreamURL :: string
  CacheDir :: string
  MaxCacheSize :: int
  DefaultCacheTTL :: int
  NotFoundCacheTTL :: int

record CacheEntry =
  Key :: string
  FilePath :: string
  Size :: int
  ContentType :: string
  CreatedAt :: int

text \<open>
  The state the methods of \<open>Cache\<close> read and write: the fields of the Go struct, the heap
  of StreamingFile objects that the pending map and the requests point into (\<open>sfs\<close>, an
  address is an index), and the file system (\<open>disk\<close>). The locks are not part of the
  state: every method below is one atomic step.
\<close>

record Cache =
  config :: Config
  fileCache :: "(string, CacheEntry) LRU"
  notFoundCache :: "(string, unit) LRU"
  totalSize :: int
  pending :: "string \<rightharpoonup> nat"
  sfs :: "StreamingFile list"
  disk :: FS

definition onEvict :: "Cache \<Rightarrow> string \<times> CacheEntry \<Rightarrow> Cache" where
  \<comment> \<open>The eviction callback that \<open>NewCache\<close> gives to \<open>fileCache\<close>.\<close>
  "onEvict c ke =
     c\<lparr>disk := (if FilePath (snd ke) \<noteq> [] then os_Remove (disk c) (FilePath (snd ke))
                 else disk c),
       totalSize := totalSize c - Size (snd ke)\<rparr>"


definition filePath :: "(string \<Rightarrow> string) \<Rightarrow> Config \<Rightarrow> string \<Rightarrow> string" where
  \<comment> \<open>\<open>H\<close> is the hexadecimal SHA-256 of the key.\<close>
  "filePath H cfg key = CacheDir cfg @ ''/'' @ take 2 (H key) @ ''/'' @ H key"

definition Get :: "Cache \<Rightarrow> int \<Rightarrow> string \<Rightarrow> Cache \<times> CacheEntry option" where
  "Get c now key =
     (case lru_Get now (notFoundCache c) key of
        (nf, Some u) \<Rightarrow> (c\<lparr>notFoundCache := fst (lru_Add now nf key ())\<rparr>, None)
      | (nf, None) \<Rightarrow>
          (case lru_Get now (fileCache c) key of
             (fc, Some entry) \<Rightarrow>
               (case lru_Add now fc key entry of
                  (fc', ev) \<Rightarrow> (foldl onEvict (c\<lparr>fileCache := fc'\<rparr>) ev, Some entry))
           | (fc, None) \<Rightarrow> (c, None)))"

definition IsNotFound :: "Cache \<Rightarrow> int \<Rightarrow> string \<Rightarrow> Cache \<times> bool" where
  "IsNotFound c now key =
     (case lru_Get now (notFoundCache c) key of
        (nf, Some u) \<Rightarrow> (c\<lparr>notFoundCache := fst (lru_Add now nf key ())\<rparr>, True)
      | (nf, None) \<Rightarrow> (c, False))"

datatype io_result = IoOk | MkdirFails | CreateFails

definition GetOrCreatePending ::
    "(string \<Rightarrow> string) \<Rightarrow> Cache \<Rightarrow> string \<Rightarrow> io_result \<Rightarrow> Cache \<times> (string + nat \<times> bool)" where
  \<comment> \<open>\<open>io\<close> is the environment: whether \<open>os.MkdirAll\<close> and \<open>os.Create\<close> succeed.\<close>
  "GetOrCreatePending H c key io =
     (case pending c key of
        Some a \<Rightarrow> (c, Inr (a, False))
      | None \<Rightarrow>
          (case io of
             MkdirFails \<Rightarrow> (c, Inl ''create cache subdirectory'')
           | CreateFails \<Rightarrow> (c, Inl ''create cache file'')
           | IoOk \<Rightarrow>
               (case NewStreamingFile (disk c) (filePath H (config c) key) of
                  (sf, fs') \<Rightarrow>
                    (c\<lparr>disk := fs', sfs := sfs c @ [sf],
                        pending := (pending c)(key \<mapsto> length (sfs c))\<rparr>,
                     Inr (length (sfs c), True)))))"

definition GetPending :: "Cache \<Rightarrow> string \<Rightarrow> nat option" where
  "GetPending c key = pending c key"

function evictIfNeeded :: "Cache \<Rightarrow> int \<Rightarrow> Cache" where
  "evictIfNeeded c incoming =
     (if totalSize c + incoming > MaxCacheSize (config c)
      then (case lru_RemoveOldest (fileCache c) of
              (fc, None) \<Rightarrow> c
            | (fc, Some ke) \<Rightarrow> evictIfNeeded (onEvict (c\<lparr>fileCache := fc\<rparr>) ke) incoming)
      else c)"
  by pat_completeness auto
termination
  by (relation "measure (\<lambda>(c, incoming). length (lru_items (fileCache c)))")
     (auto simp: lru_RemoveOldest_def onEvict_def split: if_splits)

declare evictIfNeeded.simps [simp del]

definition CompletePending ::
    "(string \<Rightarrow> string) \<Rightarrow> Cache \<Rightarrow> int \<Rightarrow> string \<Rightarrow> int \<Rightarrow> string \<Rightarrow> Cache" where
  "CompletePending H c now key sz contentType =
     (case pending c key of
        None \<Rightarrow> c
      | Some a \<Rightarrow>
          (let c1 = c\<lparr>pending := (pending c)(key := None)\<rparr>;
               c2 = c1\<lparr>sfs := (sfs c1)[a := sf_Complete (sfs c1 ! a)]\<rparr>;
               c3 = evictIfNeeded c2 sz;
               entry = \<lparr>Key = key, FilePath = filePath H (config c3) key, Size = sz,
                        ContentType = contentType, CreatedAt = now\<rparr>
           in (case lru_Add now (fileCache c3) key entry of
                 (fc, ev) \<Rightarrow>
                   (let c4 = foldl onEvict (c3\<lparr>fileCache := fc\<rparr>) ev
                    in c4\<lparr>totalSize := totalSize c4 + sz\<rparr>))))"

definition FailPending :: "Cache \<Rightarrow> string \<Rightarrow> Cache" where
  "FailPending c key =
     (case pending c key of
        None \<Rightarrow> c
      | Some a \<Rightarrow>
          (let c1 = c\<lparr>pending := (pending c)(key := None)\<rparr>
           in (case sf_Abort (sfs c1 ! a) (disk c1) of
                 (sf, fs') \<Rightarrow> c1\<lparr>sfs := (sfs c1)[a := sf], disk := fs'\<rparr>)))"

definition PutNotFound :: "Cache \<Rightarrow> int \<Rightarrow> string \<Rightarrow> Cache" where
  "PutNotFound c now key = c\<lparr>notFoundCache := fst (lru_Add now (notFoundCache c) key ())\<rparr>"

definition Remove :: "Cache \<Rightarrow> string \<Rightarrow> Cache" where
  "Remove c key =
     (case lru_Remove (fileCache c) key of
        (fc, ev) \<Rightarrow>
          (let c1 = foldl onEvict (c\<lparr>fileCache := fc\<rparr>) ev
           in c1\<lparr>notFoundCache := fst (lru_Remove (notFoundCache c1) key)\<rparr>))"

definition expire :: "Cache \<Rightarrow> int \<Rightarrow> Cache" where
  \<comment> \<open>The background expiry of the two LRUs at time \<open>now\<close>.\<close>
  "expire c now =
     (case lru_deleteExpired now (fileCache c) of
        (fc, ev) \<Rightarrow>
          (let c1 = foldl onEvict (c\<lparr>fileCache := fc\<rparr>) ev
           in c1\<lparr>notFoundCache := fst (lru_deleteExpired now (notFoundCache c1))\<rparr>))"

text \<open>The total of the sizes of a list of LRU items.\<close>

definition sizes :: "(string \<times> CacheEntry \<times> int) list \<Rightarrow> int" where
  "sizes xs = sum_list (map (\<lambda>x. Size (fst (snd x))) xs)"

section \<open>The empty cache\<close>

definition empty_cache :: "Config \<Rightarrow> FS \<Rightarrow> Cache" where
  \<comment> \<open>The cache as \<open>NewCache\<close> builds it, before the index is loaded.\<close>
  "empty_cache cfg fs =
     \<lparr>config = cfg,
      fileCache = NewLRU 0 (DefaultCacheTTL cfg),
      notFoundCache = NewLRU 10000 (NotFoundCacheTTL cfg),
      totalSize = 0, pending = Map.empty, sfs = [], disk = fs\<rparr>"

section \<open>Index persistence (cache.go)\<close>










section \<open>The proxy (proxy.go)\<close>

text \<open>
  A request is its method, its URL path and its \<open>Range\<close> header (empty when absent).
  The proxy is the cache, the \<open>fetchLocks\<close> map and the heap of \<open>fetchLock\<close> objects it
  points into. The environment of one request is the time, the upstream (a function of
  the URL), whether the files of a new pending entry can be created, and, for a request
  that tails a StreamingFile, the operations that the writer performs on that
  StreamingFile while the reader waits.

  An upstream answer is a status, \<open>ContentLength\<close> (\<open>-1\<close> when unknown), the
  \<open>Content-Type\<close> header and the body as the results of the successive \<open>Body.Read\<close>
  calls: reads that return data and no error, then a last read that returns data
  (possibly none) and \<open>io.EOF\<close> or another error.
\<close>

record Request =
  req_Method :: string
  req_Path :: string
  req_Range :: string

record fetchLock =
  fl_done :: bool
  fl_err :: error

record Proxy =
  cache :: Cache
  fetchLocks :: "string \<rightharpoonup> nat"
  locks :: "fetchLock list"

datatype read_end = EOF | ReadError

record Response =
  resp_StatusCode :: nat
  resp_ContentLength :: int
  resp_ContentType :: string
  resp_Body :: "string list"
  resp_BodyEnd :: "string \<times> read_end"

datatype upstream_result = RequestError | TransportError | Resp Response

record Env =
  env_now :: int
  env_upstream :: "string \<Rightarrow> upstream_result"
  env_io :: io_result
  env_writer :: "sf_op list"

definition validateCacheFile :: "Cache \<Rightarrow> CacheEntry \<Rightarrow> bool" where
  "validateCacheFile c entry = (os_Stat (disk c) (FilePath entry) = Some (Size entry))"

definition serveFromCache ::
    "Cache \<Rightarrow> ResponseWriter \<Rightarrow> Request \<Rightarrow> CacheEntry \<Rightarrow> ResponseWriter \<times> error" where
  "serveFromCache c w r entry =
     (case files (disk c) (FilePath entry) of
        None \<Rightarrow> (w, Some ''open cache file'')
      | Some file \<Rightarrow>
          (let w1 = hdr_Set w ''Content-Type'' (ContentType entry);
               w2 = hdr_Set w1 ''Accept-Ranges'' ''bytes'';
               w3 = hdr_Set w2 ''X-Cache'' ''HIT''
           in if req_Range r \<noteq> [] then serveRangeFromFile w3 file (Size entry) (req_Range r)
              else (let w4 = hdr_Set w3 ''Content-Length'' (FormatInt (Size entry))
                    in if req_Method r = ''HEAD'' then (w4, None)
                       else (case io_CopyBuffer w4 file of
                               (w5, failed) \<Rightarrow>
                                 (w5, if failed then Some ''write response'' else None)))))"

definition finishLock :: "Proxy \<Rightarrow> nat \<Rightarrow> error \<Rightarrow> Proxy" where
  "finishLock p l err = p\<lparr>locks := (locks p)[l := \<lparr>fl_done = True, fl_err = err\<rparr>]\<rparr>"

text \<open>
  The reader of a StreamingFile and the loop of \<open>serveFromStreaming\<close> around it. One
  round is one \<open>reader.Read\<close> into the 32 KiB buffer: the file is opened on the first
  call; an aborted StreamingFile gives its error; available bytes are read at the
  offset (a short read comes with \<open>io.EOF\<close>); at the end of a completed StreamingFile
  the read gives \<open>io.EOF\<close>; otherwise the reader waits on the condition variable, and
  the next operation of the writer wakes it. The loop writes what was read to the
  client and stops at a failed write or a read error. With no further operation of the
  writer a waiting reader waits forever: the result is \<open>None\<close>.
\<close>

definition cache_sf_apply :: "Cache \<Rightarrow> nat \<Rightarrow> sf_op \<Rightarrow> Cache" where
  "cache_sf_apply c a ev =
     (case sf_apply (sfs c ! a, disk c) ev of
        (sf, fs') \<Rightarrow> c\<lparr>sfs := (sfs c)[a := sf], disk := fs'\<rparr>)"

definition bufSize :: nat where
  "bufSize = 32 * 1024"

datatype read_err = RdEOF | RdFail string

datatype read_result = Wait | Done string "read_err option"

definition reader_Read :: "Cache \<Rightarrow> nat \<Rightarrow> int \<Rightarrow> bool \<Rightarrow> read_result" where
  \<comment> \<open>\<open>(*StreamingFileReader).Read\<close> up to the point where it returns or waits.\<close>
  "reader_Read c a offset opened =
     (if \<not> opened \<and> files (disk c) (sf_filePath (sfs c ! a)) = None
      then Done [] (Some (RdFail ''open''))
      else if sf_err (sfs c ! a) \<noteq> None
      then Done [] (Some (RdFail ''download aborted''))
      else if sf_size (sfs c ! a) - offset > 0
      then (let toRead = min bufSize (nat (sf_size (sfs c ! a) - offset))
            in (case files (disk c) (sf_filePath (sfs c ! a)) of
                  None \<Rightarrow> Done [] (Some (RdFail ''read''))
                | Some content \<Rightarrow>
                    (let data = take toRead (drop (nat offset) content)
                     in Done data (if length data < toRead then Some RdEOF else None))))
      else if sf_done (sfs c ! a) then Done [] (Some RdEOF)
      else Wait)"

function stream_loop ::
    "Cache \<Rightarrow> ResponseWriter \<Rightarrow> nat \<Rightarrow> int \<Rightarrow> bool \<Rightarrow> sf_op list
      \<Rightarrow> (Cache \<times> ResponseWriter \<times> error) option" where
  "stream_loop c w a offset opened evs =
     (case reader_Read c a offset opened of
        Wait \<Rightarrow>
          (case evs of
             [] \<Rightarrow> None
           | ev # evs' \<Rightarrow> stream_loop (cache_sf_apply c a ev) w a offset True evs')
      | Done data readErr \<Rightarrow>
          (case (if data = [] then (w, 0, False) else rw_Write w data) of
             (w', n, failed) \<Rightarrow>
               if failed then Some (c, w', Some ''write response'')
               else (case readErr of
                       Some RdEOF \<Rightarrow> Some (c, w', None)
                     | Some (RdFail m) \<Rightarrow> Some (c, w', Some (''read streaming file: '' @ m))
                     | None \<Rightarrow> stream_loop c w' a (offset + int (length data)) True evs)))"
  by pat_completeness auto
termination
proof (relation "measures [\<lambda>(c, w, a, offset, opened, evs). length evs,
    \<lambda>(c, w, a, offset, opened, evs). nat (sf_size (sfs c ! a) - offset)]", goal_cases)
  case 1
  show ?case by simp
next
  case (2 c w a offset opened evs ev evs')
  then show ?case by simp
next
  case (3 c w a offset opened evs data readErr x y n failed)
  then have "0 < sf_size (sfs c ! a) - offset \<and> 0 < length data"
    by (auto simp: reader_Read_def Let_def bufSize_def split: if_splits option.splits)
  then show ?case by auto
qed

declare stream_loop.simps [simp del]

definition serveFromStreaming ::
    "Proxy \<Rightarrow> Env \<Rightarrow> ResponseWriter \<Rightarrow> Request \<Rightarrow> nat
      \<Rightarrow> (Proxy \<times> ResponseWriter \<times> error) option" where
  "serveFromStreaming p env w r a =
     (let w1 = hdr_Set w ''X-Cache'' ''STREAMING''
      in if req_Method r = ''HEAD'' then Some (p, w1, None)
         else map_option (\<lambda>(c, w', e). (p\<lparr>cache := c\<rparr>, w', e))
                (stream_loop (cache p) w1 a 0 False (env_writer env)))"

text \<open>
  One round of the download loop of \<open>doFetchAndServe\<close> for a chunk that \<open>Body.Read\<close>
  returned: the chunk goes into the StreamingFile while \<open>isNew\<close> holds (a failed write
  clears \<open>isNew\<close>), then to the client. The result carries the new \<open>isNew\<close>, the new
  \<open>totalWritten\<close> and whether the write to the client failed.
\<close>

definition tee_chunk ::
    "Cache \<Rightarrow> ResponseWriter \<Rightarrow> nat \<Rightarrow> bool \<Rightarrow> int \<Rightarrow> string
      \<Rightarrow> Cache \<times> ResponseWriter \<times> bool \<times> int \<times> bool" where
  "tee_chunk c w a isNew totalWritten d =
     (if d = [] then (c, w, isNew, totalWritten, False)
      else (case (if isNew
                  then (case sf_Write (sfs c ! a) (disk c) d of
                          ((sf, fs'), n, failed) \<Rightarrow>
                            (c\<lparr>sfs := (sfs c)[a := sf], disk := fs'\<rparr>, \<not> failed))
                  else (c, False)) of
              (c1, isNew1) \<Rightarrow>
                (case rw_Write w d of
                   (w1, written, failed) \<Rightarrow>
                     (c1, w1, isNew1, totalWritten + int written, failed))))"

fun download_loop ::
    "Cache \<Rightarrow> ResponseWriter \<Rightarrow> nat \<Rightarrow> bool \<Rightarrow> int \<Rightarrow> string list \<Rightarrow> string \<times> read_end
      \<Rightarrow> Cache \<times> ResponseWriter \<times> bool \<times> int \<times> error" where
  "download_loop c w a isNew totalWritten [] (d, e) =
     (case tee_chunk c w a isNew totalWritten d of
        (c1, w1, isNew1, tw1, failed) \<Rightarrow>
          if failed then (c1, w1, isNew1, tw1, Some ''write response'')
          else (c1, w1, isNew1, tw1, if e = EOF then None else Some ''read upstream''))"
| "download_loop c w a isNew totalWritten (d # ds) fin =
     (case tee_chunk c w a isNew totalWritten d of
        (c1, w1, isNew1, tw1, failed) \<Rightarrow>
          if failed then (c1, w1, isNew1, tw1, Some ''write response'')
          else download_loop c1 w1 a isNew1 tw1 ds fin)"

text \<open>
  \<open>doFetchAndServe\<close> in three parts: the headers of a MISS response, the disposition
  after the download loop (what happens to the pending entry, the error given to
  \<open>finishLock\<close> and the error returned), and the function itself. The deferred
  \<open>fetchLocks.Delete(key)\<close> runs on every return.
\<close>

definition miss_headers :: "ResponseWriter \<Rightarrow> string \<Rightarrow> int \<Rightarrow> ResponseWriter" where
  "miss_headers w contentType expectedSize =
     (let w1 = hdr_Set w ''Content-Type'' contentType;
          w2 = hdr_Set w1 ''Accept-Ranges'' ''bytes'';
          w3 = (if expectedSize \<ge> 0
                then hdr_Set w2 ''Content-Length'' (FormatInt expectedSize)
                else w2)
      in hdr_Set w3 ''X-Cache'' ''MISS'')"

definition finish_download ::
    "(string \<Rightarrow> string) \<Rightarrow> Cache \<Rightarrow> int \<Rightarrow> string \<Rightarrow> bool \<Rightarrow> int \<Rightarrow> error \<Rightarrow> int \<Rightarrow> string
      \<Rightarrow> Cache \<times> error" where
  "finish_download H c now key isNew totalWritten downloadErr expectedSize contentType =
     (if downloadErr \<noteq> None
      then (if isNew then FailPending c key else c, downloadErr)
      else if expectedSize \<ge> 0 \<and> totalWritten \<noteq> expectedSize
      then (if isNew then FailPending c key else c, Some ''size mismatch'')
      else (if isNew then CompletePending H c now key totalWritten contentType else c, None))"

definition doFetchAndServe ::
    "(string \<Rightarrow> string) \<Rightarrow> Proxy \<Rightarrow> Env \<Rightarrow> ResponseWriter \<Rightarrow> Request \<Rightarrow> string \<Rightarrow> nat
      \<Rightarrow> Proxy \<times> ResponseWriter \<times> error" where
  "doFetchAndServe H p env w r key lock =
     (case
        (case env_upstream env (TrimSuffix (UpstreamURL (config (cache p))) ''/'' @ key) of
           RequestError \<Rightarrow>
             (finishLock p lock (Some ''create request''),
              http_Error w ''Internal Server Error'' 500, Some ''create request'')
         | TransportError \<Rightarrow>
             (finishLock p lock (Some ''upstream request''),
              http_Error w ''Bad Gateway'' 502, Some ''upstream request'')
         | Resp resp \<Rightarrow>
             if resp_StatusCode resp = 404
             then (let p1 = finishLock p lock (Some ''not found'')
                   in (p1\<lparr>cache := PutNotFound (cache p1) (env_now env) key\<rparr>,
                       http_Error w ''Not Found'' 404, None))
             else if resp_StatusCode resp \<noteq> 200
             then (finishLock p lock (Some ''upstream''),
                   http_Error w ''Bad Gateway'' 502, Some ''upstream error'')
             else
               (let expectedSize = resp_ContentLength resp;
                    contentType = (if resp_ContentType resp = [] then ''application/octet-stream''
                                   else resp_ContentType resp)
                in (case GetOrCreatePending H (cache p) key (env_io env) of
                      (c1, Inl err) \<Rightarrow>
                        (finishLock (p\<lparr>cache := c1\<rparr>) lock (Some err),
                         http_Error w ''Internal Server Error'' 500, Some ''create cache file'')
                    | (c1, Inr (a, isNew)) \<Rightarrow>
                        (let w4 = miss_headers w contentType expectedSize
                         in if req_Method r = ''HEAD''
                            then (finishLock
                                    (p\<lparr>cache := (if isNew then FailPending c1 key else c1)\<rparr>)
                                    lock None,
                                  w4, None)
                            else
                              (case download_loop c1 w4 a isNew 0 (resp_Body resp)
                                      (resp_BodyEnd resp) of
                                 (c2, w5, isNew2, totalWritten, downloadErr) \<Rightarrow>
                                   (case finish_download H c2 (env_now env) key isNew2
                                           totalWritten downloadErr expectedSize contentType of
                                      (c3, err) \<Rightarrow>
                                        (finishLock (p\<lparr>cache := c3\<rparr>) lock err, w5, err))))))) of
        (p', w', err) \<Rightarrow> (p'\<lparr>fetchLocks := (fetchLocks p')(key := None)\<rparr>, w', err))"

definition serveFromCacheOrError ::
    "Proxy \<Rightarrow> Env \<Rightarrow> ResponseWriter \<Rightarrow> Request \<Rightarrow> string \<Rightarrow> Proxy \<times> ResponseWriter \<times> error" where
  "serveFromCacheOrError p env w r key =
     (case IsNotFound (cache p) (env_now env) key of
        (c1, True) \<Rightarrow> (p\<lparr>cache := c1\<rparr>, http_Error w ''Not Found'' 404, None)
      | (c1, False) \<Rightarrow>
          (case Get c1 (env_now env) key of
             (c2, Some entry) \<Rightarrow>
               if validateCacheFile c2 entry
               then (case serveFromCache c2 w r entry of
                       (w', err) \<Rightarrow> (p\<lparr>cache := c2\<rparr>, w', err))
               else (p\<lparr>cache := Remove c2 key\<rparr>,
                     http_Error w ''Internal Server Error'' 500,
                     Some ''cache entry invalid after download'')
           | (c2, None) \<Rightarrow>
               (p\<lparr>cache := Remove c2 key\<rparr>,
                http_Error w ''Internal Server Error'' 500,
                Some ''cache entry invalid after download'')))"

definition LoadOrStore :: "Proxy \<Rightarrow> string \<Rightarrow> Proxy \<times> nat" where
  \<comment> \<open>\<open>p.fetchLocks.LoadOrStore(key, newFetchLock())\<close>: the lock of the key, made if absent.\<close>
  "LoadOrStore p key =
     (case fetchLocks p key of
        Some l \<Rightarrow> (p, l)
      | None \<Rightarrow>
          (p\<lparr>locks := locks p @ [\<lparr>fl_done = False, fl_err = None\<rparr>],
             fetchLocks := (fetchLocks p)(key \<mapsto> length (locks p))\<rparr>,
           length (locks p)))"

definition fetchAndServe ::
    "(string \<Rightarrow> string) \<Rightarrow> Proxy \<Rightarrow> Env \<Rightarrow> ResponseWriter \<Rightarrow> Request \<Rightarrow> string
      \<Rightarrow> (Proxy \<times> ResponseWriter \<times> error) option" where
  "fetchAndServe H p env w r key =
     (case LoadOrStore p key of
        (p1, lock) \<Rightarrow>
          if fl_done (locks p1 ! lock)
          then (if fl_err (locks p1 ! lock) \<noteq> None
                then Some (p1, http_Error w ''Not Found'' 404, None)
                else Some (serveFromCacheOrError p1 env w r key))
          else (case GetPending (cache p1) key of
                  Some a \<Rightarrow> serveFromStreaming p1 env w r a
                | None \<Rightarrow> Some (doFetchAndServe H p1 env w r key lock)))"

definition handleRequest ::
    "(string \<Rightarrow> string) \<Rightarrow> Proxy \<Rightarrow> Env \<Rightarrow> ResponseWriter \<Rightarrow> Request \<Rightarrow> string
      \<Rightarrow> (Proxy \<times> ResponseWriter \<times> error) option" where
  "handleRequest H p env w r key =
     (case IsNotFound (cache p) (env_now env) key of
        (c1, True) \<Rightarrow> Some (p\<lparr>cache := c1\<rparr>, http_Error w ''Not Found'' 404, None)
      | (c1, False) \<Rightarrow>
          (case Get c1 (env_now env) key of
             (c2, Some entry) \<Rightarrow>
               if validateCacheFile c2 entry
               then (case serveFromCache c2 w r entry of
                       (w', err) \<Rightarrow> Some (p\<lparr>cache := c2\<rparr>, w', err))
               else fetchAndServe H (p\<lparr>cache := Remove c2 key\<rparr>) env w r key
           | (c2, None) \<Rightarrow> fetchAndServe H (p\<lparr>cache := c2\<rparr>) env w r key))"

definition ServeHTTP ::
    "(string \<Rightarrow> string) \<Rightarrow> Proxy \<Rightarrow> Env \<Rightarrow> ResponseWriter \<Rightarrow> Request
      \<Rightarrow> (Proxy \<times> ResponseWriter) option" where
  "ServeHTTP H p env w r =
     (if req_Method r \<noteq> ''GET'' \<and> req_Method r \<noteq> ''HEAD''
      then Some (p, http_Error w ''Method not allowed'' 405)
      else map_option (\<lambda>(p', w', err). (p', w')) (handleRequest H p env w r (req_Path r)))"

section \<open>Concurrent requests for the fetch path\<close>

text \<open>
  \<open>CompletePending\<close> and \<open>FailPending\<close> hold \<open>pendingMu\<close> only while they take the
  entry out of the pending map (cache.go, lines 293 to 298 and 330 to 335); what they do
  with the StreamingFile they took comes after the unlock (lines 304 to 316, line 338).
  The two halves are separate steps of a concurrent run.
\<close>

definition takePending :: "Cache \<Rightarrow> string \<Rightarrow> Cache \<times> nat option" where
  \<comment> \<open>Under \<open>pendingMu\<close>: \<open>sf, ok := c.pending[key]\<close> and \<open>delete(c.pending, key)\<close>.\<close>
  "takePending c key = (c\<lparr>pending := (pending c)(key := None)\<rparr>, pending c key)"

definition storeCompleted ::
    "(string \<Rightarrow> string) \<Rightarrow> Cache \<Rightarrow> int \<Rightarrow> string \<Rightarrow> nat \<Rightarrow> int \<Rightarrow> string \<Rightarrow> Cache" where
  \<comment> \<open>\<open>CompletePending\<close> after the unlock, for the StreamingFile \<open>a\<close> it took.\<close>
  "storeCompleted H c now key a sz contentType =
     (let c2 = c\<lparr>sfs := (sfs c)[a := sf_Complete (sfs c ! a)]\<rparr>;
          c3 = evictIfNeeded c2 sz;
          entry = \<lparr>Key = key, FilePath = filePath H (config c3) key, Size = sz,
                   ContentType = contentType, CreatedAt = now\<rparr>
      in (case lru_Add now (fileCache c3) key entry of
            (fc, ev) \<Rightarrow>
              (let c4 = foldl onEvict (c3\<lparr>fileCache := fc\<rparr>) ev
               in c4\<lparr>totalSize := totalSize c4 + sz\<rparr>)))"

definition abortTaken :: "Cache \<Rightarrow> nat \<Rightarrow> Cache" where
  \<comment> \<open>\<open>FailPending\<close> after the unlock: \<open>sf.Abort()\<close> on the StreamingFile it took.\<close>
  "abortTaken c a =
     (case sf_Abort (sfs c ! a) (disk c) of
        (sf, fs') \<Rightarrow> c\<lparr>sfs := (sfs c)[a := sf], disk := fs'\<rparr>)"

text \<open>
  Requests run concurrently, each on its own goroutine. A run is an interleaving of the
  steps below, any request taking the next step. A step of a request is one access to
  the shared state of \<open>fetchAndServe\<close> and \<open>doFetchAndServe\<close>, made under the lock that
  the source holds there, with the local computation around it:
  \<^item> \<open>EvLoad\<close>: \<open>p.fetchLocks.LoadOrStore\<close>;
  \<^item> \<open>EvCheck\<close>: the critical section of \<open>fetchAndServe\<close> under \<open>lock.mu\<close> (\<open>lock.done\<close>,
    then \<open>GetPending\<close>), which ends with the request served from the cache, tailing the
    StreamingFile it found, or about to fetch;
  \<^item> \<open>EvSend\<close>: \<open>http.NewRequestWithContext\<close> and the start of \<open>httpClient.Do\<close>: the
    upstream GET is sent (or the request could not be built);
  \<^item> \<open>EvResponse\<close>: \<open>httpClient.Do\<close> returns; the status checks and, on a 200,
    \<open>GetOrCreatePending\<close>;
  \<^item> \<open>EvChunk\<close>: a chunk of the body arrives and goes into the StreamingFile while
    \<open>isNew\<close> holds;
  \<^item> \<open>EvFinish\<close>: the body has ended; the disposition is chosen and, while \<open>isNew\<close>
    holds, \<open>FailPending\<close> or \<open>CompletePending\<close> takes the key out of the pending map;
  \<^item> \<open>EvAct\<close>: the next of the actions that remain before the request returns:
    \<open>sf.Abort\<close>, the second half of \<open>CompletePending\<close>, \<open>finishLock\<close>, \<open>PutNotFound\<close>,
    and last the deferred \<open>fetchLocks.Delete\<close>;
  \<^item> \<open>EvReadDone\<close>: a tailing reader has finished.
  The requests are GET requests that missed the caches in \<open>handleRequest\<close>. The writes
  to the clients are left out: the number of bytes written and the error of the
  download loop come with \<open>EvFinish\<close>. The failure to build the request is the
  \<open>EvSend False\<close> step, so an \<open>EvResponse\<close> that carries \<open>RequestError\<close> is no step of a
  fetcher; like every event that does not fit the state of the request, it leaves the
  state as it is.
\<close>

datatype action =
    ActAbort nat
  | ActStore nat int string
  | ActUnlock nat error
  | ActPutNotFound
  | ActDelete

datatype pc =
    Arrived
  | Loaded nat
  | ToFetch nat
  | Fetching nat
  | Streaming nat bool nat int string
  | Leaving bool "action list"
  | Reading nat
  | Finished bool

datatype event =
    EvLoad
  | EvCheck
  | EvSend bool
  | EvResponse upstream_result io_result
  | EvChunk string
  | EvFinish int error
  | EvAct int
  | EvReadDone

fun perform :: "(string \<Rightarrow> string) \<Rightarrow> Proxy \<Rightarrow> int \<Rightarrow> string \<Rightarrow> action \<Rightarrow> Proxy" where
  "perform H p now key (ActAbort a) = p\<lparr>cache := abortTaken (cache p) a\<rparr>"
| "perform H p now key (ActStore a sz contentType) =
     p\<lparr>cache := storeCompleted H (cache p) now key a sz contentType\<rparr>"
| "perform H p now key (ActUnlock lock err) = finishLock p lock err"
| "perform H p now key ActPutNotFound = p\<lparr>cache := PutNotFound (cache p) now key\<rparr>"
| "perform H p now key ActDelete = p\<lparr>fetchLocks := (fetchLocks p)(key := None)\<rparr>"

definition disposition :: "int \<Rightarrow> error \<Rightarrow> int \<Rightarrow> error" where
  \<comment> \<open>The error that \<open>doFetchAndServe\<close> ends with after the download loop.\<close>
  "disposition totalWritten downloadErr expectedSize =
     (if downloadErr \<noteq> None then downloadErr
      else if expectedSize \<ge> 0 \<and> totalWritten \<noteq> expectedSize then Some ''size mismatch''
      else None)"

fun req_step :: "(string \<Rightarrow> string) \<Rightarrow> Proxy \<Rightarrow> string \<Rightarrow> pc \<Rightarrow> event \<Rightarrow> Proxy \<times> pc" where
  "req_step H p key Arrived EvLoad =
     (case LoadOrStore p key of (p1, lock) \<Rightarrow> (p1, Loaded lock))"
| "req_step H p key (Loaded lock) EvCheck =
     (if fl_done (locks p ! lock) then (p, Finished False)
      else (case GetPending (cache p) key of
              Some a \<Rightarrow> (p, Reading a)
            | None \<Rightarrow> (p, ToFetch lock)))"
| "req_step H p key (ToFetch lock) (EvSend ok) =
     (if ok then (p, Fetching lock)
      else (p, Leaving False [ActUnlock lock (Some ''create request''), ActDelete]))"
| "req_step H p key (Fetching lock) (EvResponse res io) =
     (case res of
        RequestError \<Rightarrow> (p, Fetching lock)
      | TransportError \<Rightarrow>
          (p, Leaving True [ActUnlock lock (Some ''upstream request''), ActDelete])
      | Resp resp \<Rightarrow>
          if resp_StatusCode resp = 404
          then (p, Leaving True [ActUnlock lock (Some ''not found''), ActPutNotFound, ActDelete])
          else if resp_StatusCode resp \<noteq> 200
          then (p, Leaving True [ActUnlock lock (Some ''upstream''), ActDelete])
          else (case GetOrCreatePending H (cache p) key io of
                  (c1, Inl err) \<Rightarrow>
                    (p\<lparr>cache := c1\<rparr>, Leaving True [ActUnlock lock (Some err), ActDelete])
                | (c1, Inr (a, isNew)) \<Rightarrow>
                    (p\<lparr>cache := c1\<rparr>,
                     Streaming a isNew lock (resp_ContentLength resp)
                       (if resp_ContentType resp = [] then ''application/octet-stream''
                        else resp_ContentType resp))))"
| "req_step H p key (Streaming a isNew lock expectedSize contentType) (EvChunk d) =
     (if isNew \<and> d \<noteq> []
      then (case sf_Write (sfs (cache p) ! a) (disk (cache p)) d of
              ((sf, fs'), n, failed) \<Rightarrow>
                (p\<lparr>cache := (cache p)\<lparr>sfs := (sfs (cache p))[a := sf], disk := fs'\<rparr>\<rparr>,
                 Streaming a (\<not> failed) lock expectedSize contentType))
      else (p, Streaming a isNew lock expectedSize contentType))"
| "req_step H p key (Streaming a isNew lock expectedSize contentType)
       (EvFinish totalWritten downloadErr) =
     (let err = disposition totalWritten downloadErr expectedSize
      in if isNew
         then (case takePending (cache p) key of
                 (c1, taken) \<Rightarrow>
                   (p\<lparr>cache := c1\<rparr>,
                    Leaving True
                      ((case taken of
                          None \<Rightarrow> []
                        | Some b \<Rightarrow>
                            [if err = None then ActStore b totalWritten contentType
                             else ActAbort b])
                       @ [ActUnlock lock err, ActDelete])))
         else (p, Leaving True [ActUnlock lock err, ActDelete]))"
| "req_step H p key (Leaving sent (act # acts)) (EvAct now) =
     (perform H p now key act, if acts = [] then Finished sent else Leaving sent acts)"
| "req_step H p key (Reading a) EvReadDone = (p, Finished False)"
| "req_step H p key pc ev = (p, pc)"

record cstate =
  cs_proxy :: Proxy
  cs_reqs :: "(string \<times> pc) list"

definition cstep :: "(string \<Rightarrow> string) \<Rightarrow> cstate \<Rightarrow> nat \<times> event \<Rightarrow> cstate" where
  "cstep H s x =
     (case x of (i, ev) \<Rightarrow>
        if i < length (cs_reqs s)
        then (case req_step H (cs_proxy s) (fst (cs_reqs s ! i)) (snd (cs_reqs s ! i)) ev of
                (p', pc') \<Rightarrow>
                  s\<lparr>cs_proxy := p', cs_reqs := (cs_reqs s)[i := (fst (cs_reqs s ! i), pc')]\<rparr>)
        else s)"

fun crun :: "(string \<Rightarrow> string) \<Rightarrow> cstate \<Rightarrow> (nat \<times> event) list \<Rightarrow> cstate" where
  "crun H s [] = s"
| "crun H s (x # xs) = crun H (cstep H s x) xs"

definition arrivals :: "Proxy \<Rightarrow> string list \<Rightarrow> cstate" where
  \<comment> \<open>The requests for the given keys have arrived and none has taken a step.\<close>
  "arrivals p keys = \<lparr>cs_proxy = p, cs_reqs = map (\<lambda>k. (k, Arrived)) keys\<rparr>"

fun in_flight :: "pc \<Rightarrow> bool" where
  \<comment> \<open>The GET has been sent and the body has not ended.\<close>
  "in_flight (Fetching lock) = True"
| "in_flight (Streaming a isNew lock n ct) = True"
| "in_flight pc = False"

fun has_sent :: "pc \<Rightarrow> bool" where
  "has_sent (Fetching lock) = True"
| "has_sent (Streaming a isNew lock n ct) = True"
| "has_sent (Leaving sent acts) = sent"
| "has_sent (Finished sent) = sent"
| "has_sent pc = False"

fun writer_of :: "pc \<Rightarrow> nat option" where
  "writer_of (Streaming a isNew lock n ct) = (if isNew then Some a else None)"
| "writer_of pc = None"

fun reader_of :: "pc \<Rightarrow> nat option" where
  "reader_of (Reading a) = Some a"
| "reader_of pc = None"

definition inflight :: "cstate \<Rightarrow> string \<Rightarrow> nat" where
  \<comment> \<open>The number of upstream GETs in flight for the key.\<close>
  "inflight s k = length (filter (\<lambda>x. fst x = k \<and> in_flight (snd x)) (cs_reqs s))"

definition issued :: "cstate \<Rightarrow> string \<Rightarrow> nat" where
  \<comment> \<open>The number of upstream GETs sent for the key so far.\<close>
  "issued s k = length (filter (\<lambda>x. fst x = k \<and> has_sent (snd x)) (cs_reqs s))"

definition writers :: "cstate \<Rightarrow> string \<Rightarrow> nat" where
  \<comment> \<open>The number of requests that write the key's StreamingFile (\<open>isNew\<close> holds).\<close>
  "writers s k = length (filter (\<lambda>x. fst x = k \<and> writer_of (snd x) \<noteq> None) (cs_reqs s))"

definition single_writer :: "cstate \<Rightarrow> bool" where
  "single_writer s =
     ((\<forall>i < length (cs_reqs s). \<forall>a. writer_of (snd (cs_reqs s ! i)) = Some a \<longrightarrow>
          pending (cache (cs_proxy s)) (fst (cs_reqs s ! i)) = Some a)
      \<and> (\<forall>i < length (cs_reqs s). \<forall>j < length (cs_reqs s).
            i \<noteq> j \<and> fst (cs_reqs s ! i) = fst (cs_reqs s ! j)
            \<and> writer_of (snd (cs_reqs s ! i)) \<noteq> None \<longrightarrow>
            writer_of (snd (cs_reqs s ! j)) = None))"

definition storm :: "nat \<Rightarrow> (nat \<times> event) list" where
  \<comment> \<open>A miss storm of \<open>n\<close> requests: each one loads the lock, then each one passes the
      check, then each one sends its GET; no response has come yet.\<close>
  "storm n = map (\<lambda>i. (i, EvLoad)) [0 ..< n] @ map (\<lambda>i. (i, EvCheck)) [0 ..< n]
             @ map (\<lambda>i. (i, EvSend True)) [0 ..< n]"
section \<open>Concrete states for the witnesses and counterexamples\<close>

definition c9_cache :: Cache where
  "c9_cache =
     \<lparr>config = \<lparr>UpstreamURL = ''http://up'', CacheDir = ''/c'', MaxCacheSize = 100,
                 DefaultCacheTTL = 60, NotFoundCacheTTL = 5\<rparr>,
      fileCache = \<lparr>lru_size = 0, lru_ttl = 60,
        lru_items = [(''/a'', \<lparr>Key = ''/a'', FilePath = ''/c/ab/abcd'', Size = 3,
                               ContentType = ''text/plain'', CreatedAt = 0\<rparr>, 90)]\<rparr>,
      notFoundCache = \<lparr>lru_size = 10000, lru_ttl = 5, lru_items = [(''/a'', (), 50)]\<rparr>,
      totalSize = 3, pending = Map.empty, sfs = [],
      disk = \<lparr>files = [''/c/ab/abcd'' \<mapsto> ''xyz''], budget = None\<rparr>\<rparr>"

definition c8_cache :: Cache where
  "c8_cache =
     \<lparr>config = \<lparr>UpstreamURL = ''http://up'', CacheDir = ''/c'', MaxCacheSize = 10,
                 DefaultCacheTTL = 60, NotFoundCacheTTL = 5\<rparr>,
      fileCache = \<lparr>lru_size = 0, lru_ttl = 60,
        lru_items = [(''/old'', \<lparr>Key = ''/old'', FilePath = ''/c/01/0123'', Size = 4,
                                 ContentType = ''text/plain'', CreatedAt = 0\<rparr>, 90)]\<rparr>,
      notFoundCache = \<lparr>lru_size = 10000, lru_ttl = 5, lru_items = []\<rparr>,
      totalSize = 4, pending = [''/new'' \<mapsto> 0],
      sfs = [\<lparr>sf_filePath = ''/c/ab/abcd'', sf_size = 12, sf_done = False, sf_err = None\<rparr>],
      disk = \<lparr>files = [''/c/01/0123'' \<mapsto> ''abcd'', ''/c/ab/abcd'' \<mapsto> ''0123456789ab''],
               budget = None\<rparr>\<rparr>"

definition cfg0 :: Config where
  "cfg0 = \<lparr>UpstreamURL = ''http://up/'', CacheDir = ''/c'', MaxCacheSize = 100,
            DefaultCacheTTL = 60, NotFoundCacheTTL = 5\<rparr>"

definition fs0 :: FS where
  "fs0 = \<lparr>files = Map.empty, budget = None\<rparr>"

definition H0 :: "string \<Rightarrow> string" where
  \<comment> \<open>A stand-in for the hash in the concrete runs: the key without its slash.\<close>
  "H0 k = ''00'' @ drop 1 k"







definition get_a :: Request where
  "get_a = \<lparr>req_Method = ''GET'', req_Path = ''/a'', req_Range = []\<rparr>"

definition up_hello :: Response where
  "up_hello = \<lparr>resp_StatusCode = 200, resp_ContentLength = 5, resp_ContentType = ''text/plain'',
               resp_Body = [''hel''], resp_BodyEnd = (''lo'', EOF)\<rparr>"

definition env_hello :: Env where
  \<comment> \<open>The upstream serves \<open>hello\<close> at \<open>/a\<close>; a writer appends \<open>cd\<close> and completes.\<close>
  "env_hello = \<lparr>env_now = 10,
                env_upstream = (\<lambda>url. if url = ''http://up/a'' then Resp up_hello
                                      else TransportError),
                env_io = IoOk,
                env_writer = [SfWrite ''cd'', SfComplete]\<rparr>"

definition p_pending :: Proxy where
  \<comment> \<open>A download of \<open>/a\<close> is in flight: two bytes are in its StreamingFile.\<close>
  "p_pending =
     \<lparr>cache = (empty_cache cfg0 \<lparr>files = [''/c/00/00a'' \<mapsto> ''ab''], budget = None\<rparr>)
         \<lparr>pending := [''/a'' \<mapsto> 0],
          sfs := [\<lparr>sf_filePath = ''/c/00/00a'', sf_size = 2, sf_done = False, sf_err = None\<rparr>]\<rparr>,
      fetchLocks = [''/a'' \<mapsto> 0],
      locks = [\<lparr>fl_done = False, fl_err = None\<rparr>]\<rparr>"

definition p_disk_full :: Proxy where
  \<comment> \<open>An empty cache on a disk that accepts three more bytes.\<close>
  "p_disk_full =
     \<lparr>cache = empty_cache cfg0 \<lparr>files = Map.empty, budget = Some 3\<rparr>,
      fetchLocks = Map.empty, locks = []\<rparr>"

definition env_later :: Env where
  \<comment> \<open>A later request: no writer is at work on any StreamingFile.\<close>
  "env_later = env_hello\<lparr>env_now := 11, env_writer := []\<rparr>"


definition p_empty :: Proxy where
  \<comment> \<open>A proxy that has served nothing yet.\<close>
  "p_empty = \<lparr>cache = empty_cache cfg0 fs0, fetchLocks = Map.empty, locks = []\<rparr>"

definition c1_responses :: "(nat \<times> event) list" where
  "c1_responses = [(0, EvResponse (Resp up_hello) IoOk), (1, EvResponse (Resp up_hello) IoOk)]"

definition c1_late :: "(nat \<times> event) list" where
  \<comment> \<open>The second request arrives when the first has its response.\<close>
  "c1_late = [(0, EvLoad), (0, EvCheck), (0, EvSend True), (0, EvResponse (Resp up_hello) IoOk),
              (1, EvLoad), (1, EvCheck)]"

definition c4_race :: "(nat \<times> event) list" where
  \<comment> \<open>Two requests miss together; the first downloads \<open>hello\<close> and completes before the
      second has its response.\<close>
  "c4_race = storm 2 @
     [(0, EvResponse (Resp up_hello) IoOk), (0, EvChunk ''hel''), (0, EvChunk ''lo''),
      (0, EvFinish 5 None), (0, EvAct 10), (0, EvAct 10), (0, EvAct 10),
      (1, EvResponse (Resp up_hello) IoOk)]"
section \<open>Properties of the StreamingFile\<close>

lemma sf_apply_path: "sf_filePath (fst (sf_apply s x)) = sf_filePath (fst s)"
  by (cases s; cases x)
     (auto simp: sf_Write_def sf_Complete_def sf_Abort_def split: prod.splits)

lemma sf_apply_size_mono: "sf_size (fst s) \<le> sf_size (fst (sf_apply s x))"
  by (cases s; cases x)
     (auto simp: sf_Write_def sf_Complete_def sf_Abort_def split: prod.splits)

lemma sf_apply_done:
  "sf_done (fst s) \<Longrightarrow>
     sf_done (fst (sf_apply s x)) \<and> sf_size (fst (sf_apply s x)) = sf_size (fst s)"
  by (cases s; cases x)
     (auto simp: sf_Write_def sf_Complete_def sf_Abort_def split: prod.splits)

lemma sf_apply_inv: "sf_inv s \<Longrightarrow> sf_inv (sf_apply s x)"
  by (cases s; cases x)
     (auto simp: sf_inv_def sf_Write_def sf_Complete_def sf_Abort_def os_Remove_def
           split: prod.splits)

lemma sf_run_size_mono: "sf_size (fst s) \<le> sf_size (fst (sf_run s xs))"
proof (induction xs arbitrary: s)
  case Nil
  show ?case by simp
next
  case (Cons x xs)
  have "sf_size (fst s) \<le> sf_size (fst (sf_apply s x))"
    by (rule sf_apply_size_mono)
  also have "\<dots> \<le> sf_size (fst (sf_run (sf_apply s x) xs))"
    by (rule Cons.IH)
  finally show ?case by simp
qed

lemma sf_run_done:
  "sf_done (fst s) \<Longrightarrow>
     sf_done (fst (sf_run s xs)) \<and> sf_size (fst (sf_run s xs)) = sf_size (fst s)"
proof (induction xs arbitrary: s)
  case Nil
  then show ?case by simp
next
  case (Cons x xs)
  from sf_apply_done [OF Cons.prems, of x] Cons.IH [of "sf_apply s x"]
  show ?case by simp
qed

lemma sf_run_inv: "sf_inv s \<Longrightarrow> sf_inv (sf_run s xs)"
  by (induction xs arbitrary: s) (simp_all add: sf_apply_inv)

lemma sf_run_append: "sf_run s (xs @ ys) = sf_run (sf_run s xs) ys"
  by (induction xs arbitrary: s) auto

text \<open>
  C6. For a StreamingFile just created and any sequence of write, complete and abort
  operations, taken as a prefix \<open>xs\<close> followed by a further sequence \<open>ys\<close>: the size
  after \<open>xs @ ys\<close> is at least the size after \<open>xs\<close>; if the file is done after \<open>xs\<close>,
  it stays done, the size after \<open>xs @ ys\<close> is the size after \<open>xs\<close>, and a write then
  fails with zero bytes written and leaves the StreamingFile and the file system as they
  were; and whenever \<open>err\<close> is set, \<open>done\<close> is true and no file is linked at the
  StreamingFile's path.
\<close>

theorem C6_streaming_file_invariant:
  assumes "s0 = NewStreamingFile fs p"
    and "s1 = sf_run s0 xs"
    and "s2 = sf_run s0 (xs @ ys)"
  shows "sf_size (fst s1) \<le> sf_size (fst s2)
    \<and> (sf_done (fst s1) \<longrightarrow>
          sf_done (fst s2) \<and> sf_size (fst s2) = sf_size (fst s1)
          \<and> sf_Write (fst s1) (snd s1) bs = (s1, 0, True))
    \<and> (sf_err (fst s2) \<noteq> None \<longrightarrow>
          sf_done (fst s2) \<and> files (snd s2) (sf_filePath (fst s2)) = None)"
proof -
  have s2: "s2 = sf_run s1 ys"
    using assms by (simp add: sf_run_append)
  have mono: "sf_size (fst s1) \<le> sf_size (fst s2)"
    unfolding s2 by (rule sf_run_size_mono)
  have frozen: "sf_done (fst s1) \<Longrightarrow> sf_done (fst s2) \<and> sf_size (fst s2) = sf_size (fst s1)"
    unfolding s2 by (rule sf_run_done)
  have closed: "sf_done (fst s1) \<Longrightarrow> sf_Write (fst s1) (snd s1) bs = (s1, 0, True)"
    by (simp add: sf_Write_def)
  have "sf_inv s0"
    using assms(1) by (simp add: sf_inv_def NewStreamingFile_def)
  then have "sf_inv s2"
    using assms(3) by (simp add: sf_run_inv)
  then have err: "sf_err (fst s2) \<noteq> None \<Longrightarrow>
      sf_done (fst s2) \<and> files (snd s2) (sf_filePath (fst s2)) = None"
    by (cases s2) (auto simp: sf_inv_def)
  from mono frozen closed err show ?thesis by blast
qed

text \<open>
  The witness: a file created at \<open>/c/ab/abcd\<close>, written once (5 bytes) and aborted, then
  written again and completed. The size stays 5, \<open>err\<close> is set and the path is unlinked.
\<close>

theorem C6_streaming_file_witness:
  "sf_size (fst (sf_run (NewStreamingFile \<lparr>files = Map.empty, budget = None\<rparr> ''/c/ab/abcd'')
      [SfWrite ''hello'', SfAbort])) = 5
   \<and> sf_done (fst (sf_run (NewStreamingFile \<lparr>files = Map.empty, budget = None\<rparr> ''/c/ab/abcd'')
      [SfWrite ''hello'', SfAbort]))
   \<and> sf_size (fst (sf_run (NewStreamingFile \<lparr>files = Map.empty, budget = None\<rparr> ''/c/ab/abcd'')
      ([SfWrite ''hello'', SfAbort] @ [SfWrite ''more'', SfComplete]))) = 5
   \<and> sf_err (fst (sf_run (NewStreamingFile \<lparr>files = Map.empty, budget = None\<rparr> ''/c/ab/abcd'')
      ([SfWrite ''hello'', SfAbort] @ [SfWrite ''more'', SfComplete]))) \<noteq> None
   \<and> files (snd (sf_run (NewStreamingFile \<lparr>files = Map.empty, budget = None\<rparr> ''/c/ab/abcd'')
      ([SfWrite ''hello'', SfAbort] @ [SfWrite ''more'', SfComplete]))) ''/c/ab/abcd'' = None"
proof -
  let ?s0 = "NewStreamingFile \<lparr>files = Map.empty, budget = None\<rparr> ''/c/ab/abcd''"
  let ?xs = "[SfWrite ''hello'', SfAbort]"
  let ?ys = "[SfWrite ''more'', SfComplete]"
  have size1: "sf_size (fst (sf_run ?s0 ?xs)) = 5"
    by (simp add: NewStreamingFile_def sf_Write_def file_Write_def os_Create_def sf_Abort_def)
  have done1: "sf_done (fst (sf_run ?s0 ?xs))"
    by (simp add: NewStreamingFile_def sf_Write_def file_Write_def os_Create_def sf_Abort_def)
  have err2: "sf_err (fst (sf_run ?s0 (?xs @ ?ys))) \<noteq> None"
    by (simp add: NewStreamingFile_def sf_Write_def file_Write_def os_Create_def sf_Abort_def
          sf_Complete_def)
  have path2: "sf_filePath (fst (sf_run ?s0 (?xs @ ?ys))) = ''/c/ab/abcd''"
    by (simp add: NewStreamingFile_def sf_Write_def file_Write_def os_Create_def sf_Abort_def
          sf_Complete_def)
  from C6_streaming_file_invariant [OF refl refl refl, of "\<lparr>files = Map.empty, budget = None\<rparr>"
      "''/c/ab/abcd''" ?xs ?ys] size1 done1 err2 path2
  show ?thesis by simp
qed

section \<open>Properties of Range parsing\<close>

lemma digit_val_digit_char: "d < 10 \<Longrightarrow> digit_val (digit_char d) = Some d"
  by (simp add: digit_val_def digit_char_def Let_def)

lemma digit_char_neq:
  assumes "d < 10" and "(of_char c :: nat) < 48"
  shows "digit_char d \<noteq> c"
proof
  assume "digit_char d = c"
  then have "(of_char (digit_char d) :: nat) = of_char c" by simp
  with assms show False by (simp add: digit_char_def)
qed

lemma parse_digits_snoc:
  "parse_digits acc (xs @ [c]) =
     (case parse_digits acc xs of None \<Rightarrow> None
      | Some m \<Rightarrow> (case digit_val c of None \<Rightarrow> None | Some d \<Rightarrow> Some (m * 10 + int d)))"
  by (induction xs arbitrary: acc) (auto split: option.splits)

lemma parse_digits_FormatUint: "parse_digits 0 (FormatUint n) = Some (int n)"
proof (induction n rule: FormatUint.induct)
  case (1 n)
  show ?case
  proof (cases "n < 10")
    case True
    then show ?thesis by (simp add: FormatUint.simps [of n] digit_val_digit_char)
  next
    case False
    have "int (n div 10) * 10 + int (n mod 10) = int (n div 10 * 10 + n mod 10)"
      by (simp only: of_nat_add of_nat_mult of_nat_numeral)
    also have "\<dots> = int n" by simp
    finally have "int (n div 10) * 10 + int (n mod 10) = int n" .
    with 1 False show ?thesis
      by (simp add: FormatUint.simps [of n] parse_digits_snoc digit_val_digit_char)
  qed
qed

lemma FormatUint_chars:
  assumes "(of_char c :: nat) < 48"
  shows "c \<notin> set (FormatUint n)"
proof (induction n rule: FormatUint.induct)
  case (1 n)
  show ?case
  proof (cases "n < 10")
    case True
    then show ?thesis
      using digit_char_neq [OF True assms] by (auto simp: FormatUint.simps [of n])
  next
    case False
    have "n mod 10 < 10" by simp
    from digit_char_neq [OF this assms] 1 False show ?thesis
      by (auto simp: FormatUint.simps [of n])
  qed
qed

lemma FormatUint_nonempty: "FormatUint n \<noteq> []"
  by (simp add: FormatUint.simps [of n])

lemma ParseInt_FormatUint:
  "ParseInt (FormatUint n) = (if int n \<le> 9223372036854775807 then Some (int n) else None)"
proof -
  obtain c cs where s: "FormatUint n = c # cs"
    using FormatUint_nonempty [of n] by (cases "FormatUint n") auto
  have "c \<in> set (FormatUint n)" by (simp add: s)
  then have "c \<noteq> CHR ''-''" "c \<noteq> CHR ''+''"
    using FormatUint_chars [of "CHR ''-''" n] FormatUint_chars [of "CHR ''+''" n] by auto
  moreover have "parse_digits 0 (c # cs) = Some (int n)"
    using parse_digits_FormatUint [of n] by (simp only: s)
  ultimately show ?thesis
    by (simp add: ParseInt_def s del: parse_digits.simps)
qed

lemma Split_no_sep: "c \<notin> set s \<Longrightarrow> Split s c = [s]"
  by (induction s) auto

lemma Split_sep: "c \<notin> set a \<Longrightarrow> Split (a @ c # b) c = a # Split b c"
  by (induction a) auto

lemma Split_nonempty: "Split s c \<noteq> []"
  by (induction s) (auto split: list.splits)

lemma Split_length: "length (Split s c) = Suc (length (filter (\<lambda>x. x = c) s))"
  by (induction s) (auto split: list.splits simp: Split_nonempty)

lemma Split_one:
  assumes "Split s c = [p]"
  shows "c \<notin> set s \<and> s = p"
proof -
  have "length (filter (\<lambda>x. x = c) s) = 0"
    using Split_length [of s c] assms by simp
  then have "c \<notin> set s"
    by (auto simp: filter_empty_conv)
  with assms show ?thesis by (simp add: Split_no_sep)
qed

lemma Split_two:
  "Split s c = [p0, p1] \<Longrightarrow> s = p0 @ c # p1 \<and> c \<notin> set p0 \<and> c \<notin> set p1"
proof (induction s arbitrary: p0)
  case Nil
  then show ?case by simp
next
  case (Cons x xs)
  show ?case
  proof (cases "x = c")
    case True
    with Cons.prems have p0: "p0 = []" and s1: "Split xs c = [p1]" by auto
    from Split_one [OF s1] have "c \<notin> set p1" and "xs = p1" by auto
    with True p0 show ?thesis by auto
  next
    case False
    with Cons.prems obtain p where "p0 = x # p" and "Split xs c = [p, p1]"
      by (auto split: list.splits)
    with Cons.IH [of p] False show ?thesis by simp
  qed
qed


lemma parse_digits_nonneg: "parse_digits acc s = Some v \<Longrightarrow> 0 \<le> acc \<Longrightarrow> 0 \<le> v"
proof (induction s arbitrary: acc)
  case Nil
  then show ?case by simp
next
  case (Cons c cs)
  then obtain d where d: "digit_val c = Some d"
    by (cases "digit_val c") simp_all
  with Cons.prems have "parse_digits (acc * 10 + int d) cs = Some v" by simp
  moreover from Cons.prems have "0 \<le> acc * 10 + int d" by simp
  ultimately show ?case by (rule Cons.IH)
qed

lemma ParseInt_nonneg:
  assumes "ParseInt p = Some v" and "CHR ''-'' \<notin> set p"
  shows "0 \<le> v"
proof (cases p)
  case Nil
  with assms show ?thesis by (simp add: ParseInt_def)
next
  case (Cons c cs)
  with assms(2) have c: "c \<noteq> CHR ''-''" by auto
  let ?body = "if c = CHR ''+'' then cs else p"
  from assms(1) Cons c obtain n where "parse_digits 0 ?body = Some n" and "v = n"
    by (auto simp: ParseInt_def Let_def split: if_splits option.splits)
  with parse_digits_nonneg [of 0 ?body n] show ?thesis by simp
qed

lemma HasPrefix_append: "HasPrefix (pre @ t) pre"
  by (simp add: HasPrefix_def)

lemma HasPrefix_iff: "HasPrefix s pre \<longleftrightarrow> (\<exists>t. s = pre @ t)"
proof
  assume "HasPrefix s pre"
  then have "s = pre @ drop (length pre) s"
    by (metis HasPrefix_def append_take_drop_id)
  then show "\<exists>t. s = pre @ t" ..
next
  assume "\<exists>t. s = pre @ t"
  then show "HasPrefix s pre" by (auto simp: HasPrefix_def)
qed

lemma TrimPrefix_append: "TrimPrefix (pre @ t) pre = t"
  by (simp add: TrimPrefix_def HasPrefix_def)

lemma parseRange_bytes:
  "parseRange (''bytes='' @ t) S =
     (case Split t CHR ''-'' of [p0, p1] \<Rightarrow> range_fields p0 p1 S | _ \<Rightarrow> None)"
  by (simp only: parseRange_def range_fields_def HasPrefix_append TrimPrefix_append
      not_True_eq_False if_False)

lemma parseRange_AB:
  "parseRange (''bytes='' @ FormatUint A @ ''-'' @ FormatUint B) S =
     (if int A \<le> 9223372036854775807 \<and> int B \<le> 9223372036854775807
          \<and> \<not> (int A > int B \<or> int A \<ge> S)
      then Some (int A, min (int B) (S - 1)) else None)"
proof -
  have sp: "Split (FormatUint A @ ''-'' @ FormatUint B) CHR ''-'' = [FormatUint A, FormatUint B]"
    by (simp add: Split_sep Split_no_sep FormatUint_chars)
  show ?thesis
    unfolding parseRange_bytes sp
    by (simp add: range_fields_def FormatUint_nonempty ParseInt_FormatUint min_def)
qed

lemma parseRange_A:
  "parseRange (''bytes='' @ FormatUint A @ ''-'') S =
     (if int A \<le> 9223372036854775807 \<and> \<not> (int A > S - 1 \<or> int A \<ge> S)
      then Some (int A, min (S - 1) (S - 1)) else None)"
proof -
  have sp: "Split (FormatUint A @ ''-'') CHR ''-'' = [FormatUint A, []]"
    by (simp add: Split_sep FormatUint_chars)
  show ?thesis
    unfolding parseRange_bytes sp
    by (simp add: range_fields_def FormatUint_nonempty ParseInt_FormatUint)
qed

lemma parseRange_N:
  "parseRange (''bytes='' @ ''-'' @ FormatUint N) S =
     (if int N \<le> 9223372036854775807
         \<and> \<not> (max 0 (S - int N) > S - 1 \<or> max 0 (S - int N) \<ge> S)
      then Some (max 0 (S - int N), min (S - 1) (S - 1)) else None)"
proof -
  have "Split ([] @ CHR ''-'' # FormatUint N) CHR ''-'' = [] # Split (FormatUint N) CHR ''-''"
    by (rule Split_sep) simp
  then have sp: "Split (''-'' @ FormatUint N) CHR ''-'' = [[], FormatUint N]"
    by (simp add: Split_no_sep FormatUint_chars)
  show ?thesis
    unfolding parseRange_bytes sp
    by (simp add: range_fields_def ParseInt_FormatUint max_def)
qed

lemma parseRange_Some:
  assumes "parseRange h S = Some (s, e)"
  shows "\<exists>p0 p1. h = ''bytes='' @ p0 @ ''-'' @ p1
           \<and> CHR ''-'' \<notin> set p0 \<and> CHR ''-'' \<notin> set p1
           \<and> (if p0 = [] then (\<exists>n. ParseInt p1 = Some n \<and> s = max 0 (S - n) \<and> e = S - 1)
              else ParseInt p0 = Some s
                 \<and> (if p1 = [] then e = S - 1
                    else (\<exists>b. ParseInt p1 = Some b \<and> e = min b (S - 1))))
           \<and> s \<le> e \<and> e \<le> S - 1"
proof -
  have "HasPrefix h ''bytes=''"
    using assms unfolding parseRange_def by (cases "HasPrefix h ''bytes=''") simp_all
  then obtain t where h: "h = ''bytes='' @ t"
    unfolding HasPrefix_iff ..
  from assms obtain p0 p1 where sp: "Split t CHR ''-'' = [p0, p1]"
    and rf: "range_fields p0 p1 S = Some (s, e)"
    unfolding h parseRange_bytes by (auto split: list.splits)
  from Split_two [OF sp] have t: "t = p0 @ ''-'' @ p1"
    and nd: "CHR ''-'' \<notin> set p0" "CHR ''-'' \<notin> set p1" by simp_all
  have "(if p0 = [] then (\<exists>n. ParseInt p1 = Some n \<and> s = max 0 (S - n) \<and> e = S - 1)
      else ParseInt p0 = Some s
         \<and> (if p1 = [] then e = S - 1
            else (\<exists>b. ParseInt p1 = Some b \<and> e = min b (S - 1))))
     \<and> s \<le> e \<and> e \<le> S - 1"
  proof (cases "p0 = []")
    case True
    with rf obtain n where n: "ParseInt p1 = Some n"
      unfolding range_fields_def by (cases "ParseInt p1") simp_all
    from rf True n have "s = max 0 (S - n) \<and> e = S - 1 \<and> s \<le> e \<and> e \<le> S - 1"
      unfolding range_fields_def by (simp add: max_def split: if_splits)
    with n show ?thesis unfolding if_P [OF True] by blast
  next
    case False
    with rf obtain a where a: "ParseInt p0 = Some a"
      unfolding range_fields_def by (cases "ParseInt p0") simp_all
    show ?thesis
    proof (cases "p1 = []")
      case True
      from rf False a True have "s = a \<and> e = S - 1 \<and> s \<le> e \<and> e \<le> S - 1"
        unfolding range_fields_def by (simp split: if_splits)
      with a show ?thesis unfolding if_not_P [OF False] if_P [OF True] by blast
    next
      case p1: False
      with rf False a obtain b where b: "ParseInt p1 = Some b"
        unfolding range_fields_def by (cases "ParseInt p1") simp_all
      from rf False a p1 b have "s = a \<and> e = min b (S - 1) \<and> s \<le> e \<and> e \<le> S - 1"
        unfolding range_fields_def by (simp add: min_def split: if_splits)
      with a b show ?thesis unfolding if_not_P [OF False] if_not_P [OF p1] by blast
    qed
  qed
  with h t nd show ?thesis by blast
qed

lemma parseRange_start_nonneg:
  assumes "parseRange h S = Some (s, e)"
  shows "0 \<le> s"
proof -
  from parseRange_Some [OF assms] obtain p0 p1 where nd: "CHR ''-'' \<notin> set p0"
    and f: "if p0 = [] then (\<exists>n. ParseInt p1 = Some n \<and> s = max 0 (S - n) \<and> e = S - 1)
              else ParseInt p0 = Some s
                 \<and> (if p1 = [] then e = S - 1
                    else (\<exists>b. ParseInt p1 = Some b \<and> e = min b (S - 1)))"
    by blast
  show ?thesis
  proof (cases "p0 = []")
    case True
    with f show ?thesis by auto
  next
    case False
    with f have "ParseInt p0 = Some s" by simp
    then show ?thesis using nd by (rule ParseInt_nonneg)
  qed
qed


lemma take_drop_nth:
  assumes "s + n \<le> length xs"
  shows "take n (drop s xs) = map (\<lambda>i. xs ! i) [s ..< s + n]"
proof (rule nth_equalityI)
  show "length (take n (drop s xs)) = length (map (\<lambda>i. xs ! i) [s ..< s + n])"
    using assms by simp
next
  fix i
  assume "i < length (take n (drop s xs))"
  then have "i < n" by simp
  with assms show "take n (drop s xs) ! i = map (\<lambda>i. xs ! i) [s ..< s + n] ! i"
    by simp
qed

lemma serveRange_reject:
  assumes "parseRange h S = None" and "rw_status w = None"
  shows "is_416 (serveRangeFromFile w file S h) S"
  using assms
  by (simp add: serveRangeFromFile_def is_416_def http_Error_def rw_Write_def rw_WriteHeader_def
      hdr_Set_def hdr_Del_def hdr_Get_def Let_def update_conv' delete_conv')

lemma io_CopyBuffer_all:
  assumes "rw_accept w = None" and "bs \<noteq> []"
  shows "io_CopyBuffer w bs = (rw_WriteHeader w 200\<lparr>rw_body := rw_body w @ bs\<rparr>, False)"
  using assms
  by (simp add: io_CopyBuffer_def rw_Write_def rw_WriteHeader_def Let_def)

lemma serveRange_accept:
  assumes pr: "parseRange h S = Some (s, e)"
    and w: "rw_status w = None" "rw_accept w = None" "rw_body w = []"
    and flen: "length file = nat S"
    and bounds: "0 \<le> s" "s \<le> e" "e \<le> S - 1"
  shows "is_206 (serveRangeFromFile w file S h) file S s e"
proof -
  define d where "d = take (nat (e - s + 1)) (drop (nat s) file)"
  define w3 where "w3 = rw_WriteHeader (hdr_Set (hdr_Set w ''Content-Range''
      (''bytes '' @ FormatInt s @ ''-'' @ FormatInt e @ ''/'' @ FormatInt S))
      ''Content-Length'' (FormatInt (e - s + 1))) 206"
  have n: "nat s + nat (e - s + 1) \<le> length file" and n0: "0 < nat (e - s + 1)"
    and e: "nat s + nat (e - s + 1) = nat e + 1"
    using flen bounds by simp_all
  have data: "d = map (\<lambda>i. file ! i) [nat s ..< nat e + 1]"
    unfolding d_def using take_drop_nth [OF n] by (simp only: e)
  have ne: "d \<noteq> []"
    unfolding d_def using n n0 by auto
  have w3: "rw_status w3 = Some 206" "rw_accept w3 = None" "rw_body w3 = []"
    "hdr_Get w3 ''Content-Range'' =
       Some (''bytes '' @ FormatInt s @ ''-'' @ FormatInt e @ ''/'' @ FormatInt S)"
    "hdr_Get w3 ''Content-Length'' = Some (FormatInt (e - s + 1))"
    using w by (simp_all add: w3_def rw_WriteHeader_def hdr_Get_def hdr_Set_def update_conv')
  have "serveRangeFromFile w file S h = (case io_CopyBuffer w3 d of
      (w4, failed) \<Rightarrow> (w4, if failed then Some ''write response'' else None))"
    using pr bounds(1) by (simp add: serveRangeFromFile_def Let_def w3_def d_def)
  also have "\<dots> = (rw_WriteHeader w3 200\<lparr>rw_body := rw_body w3 @ d\<rparr>, None)"
    by (simp add: io_CopyBuffer_all [OF w3(2) ne])
  finally have r: "serveRangeFromFile w file S h =
      (rw_WriteHeader w3 200\<lparr>rw_body := rw_body w3 @ d\<rparr>, None)" .
  show ?thesis
    unfolding r is_206_def using w3 data
    by (simp add: rw_WriteHeader_def hdr_Get_def)
qed

text \<open>
  C5. For a completed entry of size \<open>S\<close> whose file holds \<open>S\<close> bytes, and a client that
  stays connected: \<open>bytes=A-B\<close>, \<open>bytes=A-\<close> and \<open>bytes=-N\<close> (decimal numerals) are
  parsed with start and end as the formulas say, \<open>bytes=-N\<close> giving start
  \<open>max 0 (S - N)\<close> and end \<open>S - 1\<close>; the answer is 416 with \<open>Content-Range: bytes */S\<close>
  when a numeral does not fit \<open>int64\<close>, when start is beyond end or when start is at
  least \<open>S\<close>, and otherwise 206 with end clamped to \<open>S - 1\<close>, \<open>Content-Range: bytes
  start-end/S\<close>, \<open>Content-Length\<close> \<open>end - start + 1\<close> and the bytes of the file at the
  offsets start to end as the body. A header without the prefix \<open>bytes=\<close> is answered
  416. For any header at all, the answer is either that 416 or a 206 for a range
  \<open>0 \<le> start \<le> end \<le> S - 1\<close>, and a 206 is given only to a header of one of the three
  forms whose fields \<open>ParseInt\<close> accepts.
\<close>

theorem C5_range_on_completed_entry:
  assumes flen: "length file = nat S"
    and w: "rw_status w = None" "rw_accept w = None" "rw_body w = []"
  shows
    "(let r = serveRangeFromFile w file S (''bytes='' @ FormatUint A @ ''-'' @ FormatUint B)
      in if int A > 9223372036854775807 \<or> int B > 9223372036854775807
            \<or> int A > int B \<or> int A \<ge> S
         then is_416 r S else is_206 r file S (int A) (min (int B) (S - 1)))
   \<and> (let r = serveRangeFromFile w file S (''bytes='' @ FormatUint A @ ''-'')
      in if int A > 9223372036854775807 \<or> int A > S - 1 \<or> int A \<ge> S
         then is_416 r S else is_206 r file S (int A) (min (S - 1) (S - 1)))
   \<and> (let r = serveRangeFromFile w file S (''bytes='' @ ''-'' @ FormatUint N);
          start = max 0 (S - int N)
      in if int N > 9223372036854775807 \<or> start > S - 1 \<or> start \<ge> S
         then is_416 r S else is_206 r file S start (min (S - 1) (S - 1)))
   \<and> (\<not> HasPrefix h ''bytes='' \<longrightarrow> is_416 (serveRangeFromFile w file S h) S)
   \<and> (case parseRange h S of
        None \<Rightarrow> is_416 (serveRangeFromFile w file S h) S
      | Some (s, e) \<Rightarrow>
          is_206 (serveRangeFromFile w file S h) file S s e
          \<and> 0 \<le> s \<and> s \<le> e \<and> e \<le> S - 1
          \<and> (\<exists>p0 p1. h = ''bytes='' @ p0 @ ''-'' @ p1
                \<and> CHR ''-'' \<notin> set p0 \<and> CHR ''-'' \<notin> set p1
                \<and> (if p0 = []
                    then (\<exists>n. ParseInt p1 = Some n \<and> s = max 0 (S - n) \<and> e = S - 1)
                    else ParseInt p0 = Some s
                       \<and> (if p1 = [] then e = S - 1
                          else (\<exists>b. ParseInt p1 = Some b \<and> e = min b (S - 1))))))"
proof -
  have general: "case parseRange g S of
        None \<Rightarrow> is_416 (serveRangeFromFile w file S g) S
      | Some (s, e) \<Rightarrow>
          is_206 (serveRangeFromFile w file S g) file S s e
          \<and> 0 \<le> s \<and> s \<le> e \<and> e \<le> S - 1
          \<and> (\<exists>p0 p1. g = ''bytes='' @ p0 @ ''-'' @ p1
                \<and> CHR ''-'' \<notin> set p0 \<and> CHR ''-'' \<notin> set p1
                \<and> (if p0 = []
                    then (\<exists>n. ParseInt p1 = Some n \<and> s = max 0 (S - n) \<and> e = S - 1)
                    else ParseInt p0 = Some s
                       \<and> (if p1 = [] then e = S - 1
                          else (\<exists>b. ParseInt p1 = Some b \<and> e = min b (S - 1)))))" for g
  proof (cases "parseRange g S")
    case None
    with serveRange_reject [OF None w(1)] show ?thesis by simp
  next
    case (Some se)
    obtain s e where se: "se = (s, e)" by (cases se)
    with Some have pr: "parseRange g S = Some (s, e)" by simp
    note form = parseRange_Some [OF pr]
    then have b: "s \<le> e" "e \<le> S - 1" by blast+
    have s0: "0 \<le> s" using pr by (rule parseRange_start_nonneg)
    from serveRange_accept [OF pr w flen s0 b] form s0 b show ?thesis
      by (simp add: pr)
  qed
  have sel: "parseRange g S = None \<Longrightarrow> is_416 (serveRangeFromFile w file S g) S"
    "parseRange g S = Some (s, e) \<Longrightarrow> is_206 (serveRangeFromFile w file S g) file S s e"
    for g s e
    using general [of g] by simp_all
  have ab: "let r = serveRangeFromFile w file S (''bytes='' @ FormatUint A @ ''-'' @ FormatUint B)
      in if int A > 9223372036854775807 \<or> int B > 9223372036854775807
            \<or> int A > int B \<or> int A \<ge> S
         then is_416 r S else is_206 r file S (int A) (min (int B) (S - 1))"
  proof (cases "int A \<le> 9223372036854775807 \<and> int B \<le> 9223372036854775807
          \<and> \<not> (int A > int B \<or> int A \<ge> S)")
    case True
    then have "parseRange (''bytes='' @ FormatUint A @ ''-'' @ FormatUint B) S =
        Some (int A, min (int B) (S - 1))"
      unfolding parseRange_AB by simp
    from sel(2) [OF this] True show ?thesis
      unfolding Let_def by auto
  next
    case False
    then have "parseRange (''bytes='' @ FormatUint A @ ''-'' @ FormatUint B) S = None"
      unfolding parseRange_AB by simp
    from sel(1) [OF this] False show ?thesis
      unfolding Let_def by auto
  qed
  have a: "let r = serveRangeFromFile w file S (''bytes='' @ FormatUint A @ ''-'')
      in if int A > 9223372036854775807 \<or> int A > S - 1 \<or> int A \<ge> S
         then is_416 r S else is_206 r file S (int A) (min (S - 1) (S - 1))"
  proof (cases "int A \<le> 9223372036854775807 \<and> \<not> (int A > S - 1 \<or> int A \<ge> S)")
    case True
    then have "parseRange (''bytes='' @ FormatUint A @ ''-'') S =
        Some (int A, min (S - 1) (S - 1))"
      unfolding parseRange_A by simp
    from sel(2) [OF this] True show ?thesis
      unfolding Let_def by auto
  next
    case False
    then have "parseRange (''bytes='' @ FormatUint A @ ''-'') S = None"
      unfolding parseRange_A by simp
    from sel(1) [OF this] False show ?thesis
      unfolding Let_def by auto
  qed
  have n: "let r = serveRangeFromFile w file S (''bytes='' @ ''-'' @ FormatUint N);
          start = max 0 (S - int N)
      in if int N > 9223372036854775807 \<or> start > S - 1 \<or> start \<ge> S
         then is_416 r S else is_206 r file S start (min (S - 1) (S - 1))"
  proof (cases "int N \<le> 9223372036854775807
         \<and> \<not> (max 0 (S - int N) > S - 1 \<or> max 0 (S - int N) \<ge> S)")
    case True
    then have "parseRange (''bytes='' @ ''-'' @ FormatUint N) S =
        Some (max 0 (S - int N), min (S - 1) (S - 1))"
      unfolding parseRange_N by simp
    from sel(2) [OF this] True show ?thesis
      unfolding Let_def by auto
  next
    case False
    then have "parseRange (''bytes='' @ ''-'' @ FormatUint N) S = None"
      unfolding parseRange_N by simp
    from sel(1) [OF this] False show ?thesis
      unfolding Let_def by auto
  qed
  have pre: "\<not> HasPrefix h ''bytes='' \<longrightarrow> is_416 (serveRangeFromFile w file S h) S"
  proof
    assume "\<not> HasPrefix h ''bytes=''"
    then have "parseRange h S = None" by (simp add: parseRange_def)
    then show "is_416 (serveRangeFromFile w file S h) S" by (rule sel(1))
  qed
  from ab a n pre general [of h] show ?thesis by blast
qed

text \<open>
  The witness: a ten-byte file \<open>0123456789\<close> and the headers \<open>bytes=2-5\<close>,
  \<open>bytes=12-\<close>, \<open>bytes=-3\<close>, \<open>octets=1-2\<close> and \<open>bytes=7-\<close>.
\<close>

theorem C5_range_witness:
  "is_206 (serveRangeFromFile fresh_writer ''0123456789'' 10 ''bytes=2-5'') ''0123456789'' 10 2 5
   \<and> rw_body (fst (serveRangeFromFile fresh_writer ''0123456789'' 10 ''bytes=2-5'')) = ''2345''
   \<and> is_416 (serveRangeFromFile fresh_writer ''0123456789'' 10 ''bytes=12-'') 10
   \<and> is_206 (serveRangeFromFile fresh_writer ''0123456789'' 10 ''bytes=-3'') ''0123456789'' 10 7 9
   \<and> is_416 (serveRangeFromFile fresh_writer ''0123456789'' 10 ''octets=1-2'') 10
   \<and> is_206 (serveRangeFromFile fresh_writer ''0123456789'' 10 ''bytes=7-'') ''0123456789'' 10 7 9"
proof -
  have flen: "length ''0123456789'' = nat 10" by simp
  have w: "rw_status fresh_writer = None" "rw_accept fresh_writer = None"
    "rw_body fresh_writer = []"
    by (simp_all add: fresh_writer_def)
  have f: "FormatUint 2 = ''2''" "FormatUint 5 = ''5''" "FormatUint 12 = ''12''"
    "FormatUint 3 = ''3''"
    by code_simp+
  have pre: "\<not> HasPrefix ''octets=1-2'' ''bytes=''"
    by (simp add: HasPrefix_def)
  have pr: "parseRange ''bytes=7-'' 10 = Some (7, 9)"
    by code_simp
  note c5 = C5_range_on_completed_entry [OF flen w, of 2 5 3 "''octets=1-2''"]
    C5_range_on_completed_entry [OF flen w, of 12 5 3 "''bytes=7-''"]
  from c5(1) have ab: "is_206 (serveRangeFromFile fresh_writer ''0123456789'' 10 ''bytes=2-5'')
      ''0123456789'' 10 2 5"
    by (simp add: f Let_def)
  from c5(1) have n: "is_206 (serveRangeFromFile fresh_writer ''0123456789'' 10 ''bytes=-3'')
      ''0123456789'' 10 7 9"
    by (simp add: f Let_def)
  from c5(1) pre have p: "is_416 (serveRangeFromFile fresh_writer ''0123456789'' 10 ''octets=1-2'') 10"
    by blast
  from c5(2) have a: "is_416 (serveRangeFromFile fresh_writer ''0123456789'' 10 ''bytes=12-'') 10"
    by (simp add: f Let_def)
  from c5(2) have g: "is_206 (serveRangeFromFile fresh_writer ''0123456789'' 10 ''bytes=7-'')
      ''0123456789'' 10 7 9"
    by (simp add: pr)
  from ab have body: "rw_body (fst (serveRangeFromFile fresh_writer ''0123456789'' 10 ''bytes=2-5''))
      = ''2345''"
    by (simp add: is_206_def upt_rec)
  from ab body a n p g show ?thesis by blast
qed
section \<open>Properties of the cache\<close>

lemma map_of_lru_del_same: "map_of (lru_del k xs) k = None"
  by (induction xs) (auto simp: lru_del_def)

lemma map_of_lru_del_other: "k' \<noteq> k \<Longrightarrow> map_of (lru_del k xs) k' = map_of xs k'"
  by (induction xs) (auto simp: lru_del_def)

lemma lru_del_absent: "map_of xs k = None \<Longrightarrow> lru_del k xs = xs"
  by (induction xs) (auto simp: lru_del_def split: if_splits)

lemma lru_Peek_Some:
  "lru_Peek now l k = Some v \<longleftrightarrow> (\<exists>exp. map_of (lru_items l) k = Some (v, exp) \<and> \<not> now > exp)"
  by (auto simp: lru_Peek_def split: option.splits)

text \<open>
  C9. When the key is in the negative cache and has not expired, \<open>Get\<close> returns a miss
  whatever the file cache holds for the key; the negative-cache item of the key gets the
  expiry time \<open>now\<close> plus the negative-cache time to live, and the file cache (its items,
  their order and their expiry times), the total size, the pending map and the disk are
  unchanged.
\<close>

theorem C9_get_negative_cache_wins:
  assumes "lru_Peek now (notFoundCache c) key = Some ()"
  shows "snd (Get c now key) = None
    \<and> fileCache (fst (Get c now key)) = fileCache c
    \<and> map_of (lru_items (notFoundCache (fst (Get c now key)))) key
        = Some ((), now + lru_ttl (notFoundCache c))
    \<and> totalSize (fst (Get c now key)) = totalSize c
    \<and> pending (fst (Get c now key)) = pending c
    \<and> disk (fst (Get c now key)) = disk c"
proof -
  from assms obtain exp where m: "map_of (lru_items (notFoundCache c)) key = Some ((), exp)"
    and live: "\<not> now > exp"
    unfolding lru_Peek_Some by blast
  have g: "lru_Get now (notFoundCache c) key =
      ((notFoundCache c)\<lparr>lru_items := (key, (), exp) # lru_del key (lru_items (notFoundCache c))\<rparr>,
       Some ())"
    using m live by (simp add: lru_Get_def)
  show ?thesis
    unfolding Get_def g by (simp add: lru_Add_def)
qed

text \<open>
  The witness: \<open>/a\<close> is in the negative cache until time 50 and has a completed entry
  until time 90; at time 10 \<open>Get\<close> misses and the negative entry now lasts until 15.
\<close>

theorem C9_get_negative_cache_witness:
  "lru_Peek 10 (notFoundCache c9_cache) ''/a'' = Some ()
   \<and> lru_Peek 10 (fileCache c9_cache) ''/a'' \<noteq> None
   \<and> snd (Get c9_cache 10 ''/a'') = None
   \<and> fileCache (fst (Get c9_cache 10 ''/a'')) = fileCache c9_cache
   \<and> map_of (lru_items (notFoundCache (fst (Get c9_cache 10 ''/a'')))) ''/a'' = Some ((), 15)"
proof -
  have h: "lru_Peek 10 (notFoundCache c9_cache) ''/a'' = Some ()"
    by (simp add: lru_Peek_def c9_cache_def)
  have f: "lru_Peek 10 (fileCache c9_cache) ''/a'' \<noteq> None"
    by (simp add: lru_Peek_def c9_cache_def)
  have t: "lru_ttl (notFoundCache c9_cache) = 5"
    by (simp add: c9_cache_def)
  from C9_get_negative_cache_wins [OF h] h f t show ?thesis by simp
qed

lemma sizes_simps [simp]:
  "sizes [] = 0" "sizes (x # xs) = Size (fst (snd x)) + sizes xs"
  "sizes (xs @ ys) = sizes xs + sizes ys"
  by (simp_all add: sizes_def)

lemma evictIfNeeded_frame:
  "config (evictIfNeeded c i) = config c \<and> pending (evictIfNeeded c i) = pending c
   \<and> sfs (evictIfNeeded c i) = sfs c \<and> notFoundCache (evictIfNeeded c i) = notFoundCache c
   \<and> lru_ttl (fileCache (evictIfNeeded c i)) = lru_ttl (fileCache c)
   \<and> lru_size (fileCache (evictIfNeeded c i)) = lru_size (fileCache c)"
proof (induction c i rule: evictIfNeeded.induct)
  case (1 c incoming)
  show ?case
  proof (cases "totalSize c + incoming > MaxCacheSize (config c) \<and> lru_items (fileCache c) \<noteq> []")
    case False
    then show ?thesis
      by (auto simp: evictIfNeeded.simps [of c] lru_RemoveOldest_def)
  next
    case True
    let ?fc = "(fileCache c)\<lparr>lru_items := butlast (lru_items (fileCache c))\<rparr>"
    let ?ke = "(fst (last (lru_items (fileCache c))), fst (snd (last (lru_items (fileCache c)))))"
    have ro: "lru_RemoveOldest (fileCache c) = (?fc, Some ?ke)"
      using True by (simp add: lru_RemoveOldest_def)
    have step: "evictIfNeeded c incoming = evictIfNeeded (onEvict (c\<lparr>fileCache := ?fc\<rparr>) ?ke) incoming"
      using True by (simp add: evictIfNeeded.simps [of c] ro)
    from "1.IH" [OF _ ro [symmetric] refl] True show ?thesis
      unfolding step by (simp add: onEvict_def)
  qed
qed

lemma evictIfNeeded_files_None:
  "files (disk c) p = None \<Longrightarrow> files (disk (evictIfNeeded c i)) p = None"
proof (induction c i rule: evictIfNeeded.induct)
  case (1 c incoming)
  show ?case
  proof (cases "totalSize c + incoming > MaxCacheSize (config c) \<and> lru_items (fileCache c) \<noteq> []")
    case False
    with "1.prems" show ?thesis
      by (auto simp: evictIfNeeded.simps [of c] lru_RemoveOldest_def)
  next
    case True
    let ?fc = "(fileCache c)\<lparr>lru_items := butlast (lru_items (fileCache c))\<rparr>"
    let ?ke = "(fst (last (lru_items (fileCache c))), fst (snd (last (lru_items (fileCache c)))))"
    have ro: "lru_RemoveOldest (fileCache c) = (?fc, Some ?ke)"
      using True by (simp add: lru_RemoveOldest_def)
    have step: "evictIfNeeded c incoming = evictIfNeeded (onEvict (c\<lparr>fileCache := ?fc\<rparr>) ?ke) incoming"
      using True by (simp add: evictIfNeeded.simps [of c] ro)
    have "files (disk (onEvict (c\<lparr>fileCache := ?fc\<rparr>) ?ke)) p = None"
      using "1.prems" by (simp add: onEvict_def os_Remove_def)
    from "1.IH" [OF _ ro [symmetric] refl this] True show ?thesis
      unfolding step by simp
  qed
qed

lemma evictIfNeeded_evicts:
  "\<exists>ev. lru_items (fileCache c) = lru_items (fileCache (evictIfNeeded c i)) @ ev
     \<and> totalSize (evictIfNeeded c i) = totalSize c - sizes ev
     \<and> (\<forall>x \<in> set ev. FilePath (fst (snd x)) \<noteq> [] \<longrightarrow>
           files (disk (evictIfNeeded c i)) (FilePath (fst (snd x))) = None)
     \<and> (totalSize (evictIfNeeded c i) + i \<le> MaxCacheSize (config c)
          \<or> lru_items (fileCache (evictIfNeeded c i)) = [])
     \<and> (\<forall>ys zs. ev = ys @ zs \<and> ys \<noteq> [] \<longrightarrow>
           totalSize c - sizes zs + i > MaxCacheSize (config c))"
proof (induction c i rule: evictIfNeeded.induct)
  case (1 c incoming)
  show ?case
  proof (cases "totalSize c + incoming > MaxCacheSize (config c) \<and> lru_items (fileCache c) \<noteq> []")
    case False
    then have same: "evictIfNeeded c incoming = c"
      by (auto simp: evictIfNeeded.simps [of c] lru_RemoveOldest_def)
    show ?thesis
      unfolding same using False by (intro exI [of _ "[]"]) auto
  next
    case True
    let ?xs = "lru_items (fileCache c)"
    let ?fc = "(fileCache c)\<lparr>lru_items := butlast ?xs\<rparr>"
    let ?ke = "(fst (last ?xs), fst (snd (last ?xs)))"
    let ?c1 = "onEvict (c\<lparr>fileCache := ?fc\<rparr>) ?ke"
    let ?c' = "evictIfNeeded ?c1 incoming"
    have ro: "lru_RemoveOldest (fileCache c) = (?fc, Some ?ke)"
      using True by (simp add: lru_RemoveOldest_def)
    have step: "evictIfNeeded c incoming = ?c'"
      using True by (simp add: evictIfNeeded.simps [of c] ro)
    have c1: "lru_items (fileCache ?c1) = butlast ?xs"
      "totalSize ?c1 = totalSize c - Size (fst (snd (last ?xs)))"
      "config ?c1 = config c"
      by (simp_all add: onEvict_def)
    have unl: "FilePath (fst (snd (last ?xs))) \<noteq> [] \<Longrightarrow>
        files (disk ?c1) (FilePath (fst (snd (last ?xs)))) = None"
      by (simp add: onEvict_def os_Remove_def)
    from "1.IH" [OF _ ro [symmetric] refl] True obtain ev1 where
      a: "butlast ?xs = lru_items (fileCache ?c') @ ev1"
      and b: "totalSize ?c' = totalSize c - Size (fst (snd (last ?xs))) - sizes ev1"
      and u: "\<forall>x \<in> set ev1. FilePath (fst (snd x)) \<noteq> [] \<longrightarrow>
           files (disk ?c') (FilePath (fst (snd x))) = None"
      and s: "totalSize ?c' + incoming \<le> MaxCacheSize (config c)
          \<or> lru_items (fileCache ?c') = []"
      and m: "\<forall>ys zs. ev1 = ys @ zs \<and> ys \<noteq> [] \<longrightarrow>
           totalSize c - Size (fst (snd (last ?xs))) - sizes zs + incoming > MaxCacheSize (config c)"
      unfolding c1 by blast
    let ?ev = "ev1 @ [last ?xs]"
    have xs: "?xs = butlast ?xs @ [last ?xs]"
      using True by simp
    have A: "?xs = lru_items (fileCache ?c') @ ?ev"
      using xs a by (metis append_assoc)
    have B: "totalSize ?c' = totalSize c - sizes ?ev"
      using b by simp
    have U: "\<forall>x \<in> set ?ev. FilePath (fst (snd x)) \<noteq> [] \<longrightarrow>
           files (disk ?c') (FilePath (fst (snd x))) = None"
      using u unl evictIfNeeded_files_None [of ?c1 _ incoming] by auto
    have M: "\<forall>ys zs. ?ev = ys @ zs \<and> ys \<noteq> [] \<longrightarrow>
           totalSize c - sizes zs + incoming > MaxCacheSize (config c)"
    proof (intro allI impI)
      fix ys zs
      assume h: "?ev = ys @ zs \<and> ys \<noteq> []"
      show "totalSize c - sizes zs + incoming > MaxCacheSize (config c)"
      proof (cases zs rule: rev_cases)
        case Nil
        with True show ?thesis by simp
      next
        case (snoc zs1 z)
        with h have "ev1 = ys @ zs1" and "z = last ?xs" by auto
        with m h have "totalSize c - Size (fst (snd (last ?xs))) - sizes zs1 + incoming
            > MaxCacheSize (config c)" by blast
        with snoc \<open>z = last ?xs\<close> show ?thesis by simp
      qed
    qed
    show ?thesis
      unfolding step using A B U s M by blast
  qed
qed

text \<open>
  C8. \<open>CompletePending\<close> of a pending key with size \<open>sz\<close>, on a file cache without a
  capacity (as \<open>NewCache\<close> builds it), with \<open>c1\<close> the state after the eviction loop and
  \<open>c2\<close> the state at the end. The loop evicts a run \<open>ev\<close> of least recently used
  entries (the tail of the list) and nothing else; the total size goes down by the sizes
  of the evicted entries; the file of every evicted entry (with a path) is unlinked; the
  loop ends with \<open>totalSize + sz\<close> within \<open>MaxCacheSize\<close> or with the LRU empty; no entry
  is evicted unless the bound was still exceeded before its eviction. Then the new entry
  is admitted at the front of the LRU and \<open>sz\<close> is added to the total size, whether or
  not the bound is met.
\<close>

theorem C8_size_eviction:
  assumes pend: "pending c key = Some a"
    and cap: "lru_size (fileCache c) = 0"
    and c1: "c1 = evictIfNeeded
        (c\<lparr>pending := (pending c)(key := None), sfs := (sfs c)[a := sf_Complete (sfs c ! a)]\<rparr>) sz"
    and c2: "c2 = CompletePending H c now key sz ct"
  shows "\<exists>ev. lru_items (fileCache c) = lru_items (fileCache c1) @ ev
     \<and> totalSize c1 = totalSize c - sizes ev
     \<and> (\<forall>x \<in> set ev. FilePath (fst (snd x)) \<noteq> [] \<longrightarrow>
           files (disk c1) (FilePath (fst (snd x))) = None)
     \<and> (totalSize c1 + sz \<le> MaxCacheSize (config c) \<or> lru_items (fileCache c1) = [])
     \<and> (\<forall>ys zs. ev = ys @ zs \<and> ys \<noteq> [] \<longrightarrow>
           totalSize c - sizes zs + sz > MaxCacheSize (config c))
     \<and> lru_items (fileCache c2) =
          (key, \<lparr>Key = key, FilePath = filePath H (config c) key, Size = sz,
                  ContentType = ct, CreatedAt = now\<rparr>, now + lru_ttl (fileCache c))
          # lru_del key (lru_items (fileCache c1))
     \<and> totalSize c2 = totalSize c1 + sz
     \<and> pending c2 key = None"
proof -
  let ?c0 = "c\<lparr>pending := (pending c)(key := None),
      sfs := (sfs c)[a := sf_Complete (sfs c ! a)]\<rparr>"
  let ?entry = "\<lparr>Key = key, FilePath = filePath H (config c) key, Size = sz,
                  ContentType = ct, CreatedAt = now\<rparr>"
  have fr: "config c1 = config c" "pending c1 = (pending c)(key := None)"
    "lru_ttl (fileCache c1) = lru_ttl (fileCache c)" "lru_size (fileCache c1) = 0"
    using evictIfNeeded_frame [of ?c0 sz] cap by (simp_all add: c1)
  from evictIfNeeded_evicts [of ?c0 sz] obtain ev where
    ev: "lru_items (fileCache c) = lru_items (fileCache c1) @ ev
     \<and> totalSize c1 = totalSize c - sizes ev
     \<and> (\<forall>x \<in> set ev. FilePath (fst (snd x)) \<noteq> [] \<longrightarrow>
           files (disk c1) (FilePath (fst (snd x))) = None)
     \<and> (totalSize c1 + sz \<le> MaxCacheSize (config c) \<or> lru_items (fileCache c1) = [])
     \<and> (\<forall>ys zs. ev = ys @ zs \<and> ys \<noteq> [] \<longrightarrow>
           totalSize c - sizes zs + sz > MaxCacheSize (config c))"
    unfolding c1 [symmetric] by auto
  have add: "lru_Add now (fileCache c1) key ?entry =
      ((fileCache c1)\<lparr>lru_items := (key, ?entry, now + lru_ttl (fileCache c))
          # lru_del key (lru_items (fileCache c1))\<rparr>, [])"
  proof (cases "map_of (lru_items (fileCache c1)) key")
    case None
    then have "lru_del key (lru_items (fileCache c1)) = lru_items (fileCache c1)"
      by (rule lru_del_absent)
    with None fr show ?thesis by (simp add: lru_Add_def)
  next
    case (Some old)
    with fr show ?thesis by (simp add: lru_Add_def)
  qed
  have r: "c2 = c1\<lparr>fileCache := (fileCache c1)\<lparr>lru_items :=
        (key, ?entry, now + lru_ttl (fileCache c)) # lru_del key (lru_items (fileCache c1))\<rparr>,
      totalSize := totalSize c1 + sz\<rparr>"
    unfolding c2 CompletePending_def using pend
    by (simp add: Let_def c1 [symmetric] fr add)
  have "lru_items (fileCache c2) =
          (key, ?entry, now + lru_ttl (fileCache c)) # lru_del key (lru_items (fileCache c1))
     \<and> totalSize c2 = totalSize c1 + sz \<and> pending c2 key = None"
    unfolding r by (simp add: fr)
  with ev show ?thesis by blast
qed

text \<open>
  The witness: the bound is 10 bytes, the cache holds one entry of 4 bytes, and a
  download of 12 bytes completes. The old entry is evicted and its file unlinked; the
  LRU is then empty, the loop stops, and the new entry is admitted: the total is 12.
\<close>

theorem C8_size_eviction_witness:
  "pending c8_cache ''/new'' = Some 0
   \<and> lru_size (fileCache c8_cache) = 0
   \<and> MaxCacheSize (config c8_cache) = 10
   \<and> totalSize (evictIfNeeded (c8_cache\<lparr>pending := (pending c8_cache)(''/new'' := None),
          sfs := (sfs c8_cache)[0 := sf_Complete (sfs c8_cache ! 0)]\<rparr>) 12) = 0
   \<and> files (disk (evictIfNeeded (c8_cache\<lparr>pending := (pending c8_cache)(''/new'' := None),
          sfs := (sfs c8_cache)[0 := sf_Complete (sfs c8_cache ! 0)]\<rparr>) 12)) ''/c/01/0123'' = None
   \<and> map (\<lambda>x. fst x) (lru_items (fileCache
          (CompletePending (\<lambda>k. ''abcd'') c8_cache 10 ''/new'' 12 ''text/plain''))) = [''/new'']
   \<and> totalSize (CompletePending (\<lambda>k. ''abcd'') c8_cache 10 ''/new'' 12 ''text/plain'') = 12"
proof -
  let ?c0 = "c8_cache\<lparr>pending := (pending c8_cache)(''/new'' := None),
          sfs := (sfs c8_cache)[0 := sf_Complete (sfs c8_cache ! 0)]\<rparr>"
  let ?c1 = "evictIfNeeded ?c0 12"
  let ?c2 = "CompletePending (\<lambda>k. ''abcd'') c8_cache 10 ''/new'' 12 ''text/plain''"
  have p: "pending c8_cache ''/new'' = Some 0" and cap: "lru_size (fileCache c8_cache) = 0"
    and mx: "MaxCacheSize (config c8_cache) = 10" and ts: "totalSize c8_cache = 4"
    and xs: "lru_items (fileCache c8_cache) =
      [(''/old'', \<lparr>Key = ''/old'', FilePath = ''/c/01/0123'', Size = 4,
                   ContentType = ''text/plain'', CreatedAt = 0\<rparr>, 90)]"
    by (simp_all add: c8_cache_def)
  have kept: "lru_items (fileCache ?c1) = []"
    by (simp add: c8_cache_def evictIfNeeded.simps lru_RemoveOldest_def onEvict_def)
  from C8_size_eviction [OF p cap refl refl, of 12 "\<lambda>k. ''abcd''" 10 "''text/plain''"]
  obtain ev where a: "lru_items (fileCache c8_cache) = lru_items (fileCache ?c1) @ ev"
    and b: "totalSize ?c1 = totalSize c8_cache - sizes ev"
    and u: "\<forall>x \<in> set ev. FilePath (fst (snd x)) \<noteq> [] \<longrightarrow>
           files (disk ?c1) (FilePath (fst (snd x))) = None"
    and i: "lru_items (fileCache ?c2) =
          (''/new'', \<lparr>Key = ''/new'', FilePath = filePath (\<lambda>k. ''abcd'') (config c8_cache) ''/new'',
                  Size = 12, ContentType = ''text/plain'', CreatedAt = 10\<rparr>,
           10 + lru_ttl (fileCache c8_cache))
          # lru_del ''/new'' (lru_items (fileCache ?c1))"
    and t: "totalSize ?c2 = totalSize ?c1 + 12"
    by blast
  from a have ev: "ev = [(''/old'', \<lparr>Key = ''/old'', FilePath = ''/c/01/0123'', Size = 4,
                   ContentType = ''text/plain'', CreatedAt = 0\<rparr>, 90)]"
    unfolding kept xs by simp
  from b have t1: "totalSize ?c1 = 0"
    unfolding ev ts by simp
  from u have u1: "files (disk ?c1) ''/c/01/0123'' = None"
    unfolding ev by simp
  from i have i1: "map (\<lambda>x. fst x) (lru_items (fileCache ?c2)) = [''/new'']"
    unfolding kept by (simp add: lru_del_def)
  from t t1 have t2: "totalSize ?c2 = 12" by simp
  from p cap mx t1 u1 i1 t2 show ?thesis by blast
qed

lemma foldl_onEvict_frame:
  "fileCache (foldl onEvict c ev) = fileCache c \<and> pending (foldl onEvict c ev) = pending c
   \<and> notFoundCache (foldl onEvict c ev) = notFoundCache c \<and> sfs (foldl onEvict c ev) = sfs c
   \<and> config (foldl onEvict c ev) = config c"
  by (induction ev arbitrary: c) (simp_all add: onEvict_def)

lemma keys_lru_del: "dom (map_of (lru_del k xs)) \<subseteq> dom (map_of xs)"
proof
  fix k'
  assume "k' \<in> dom (map_of (lru_del k xs))"
  then obtain v where v: "map_of (lru_del k xs) k' = Some v" by blast
  show "k' \<in> dom (map_of xs)"
  proof (cases "k' = k")
    case True
    with v map_of_lru_del_same [of k xs] show ?thesis by simp
  next
    case False
    with v map_of_lru_del_other [of k' k xs] have "map_of xs k' = Some v" by simp
    then show ?thesis by (rule domI)
  qed
qed

lemma keys_butlast: "dom (map_of (butlast xs)) \<subseteq> dom (map_of xs)"
proof -
  have "fst ` set (butlast xs) \<subseteq> fst ` set xs"
    by (auto dest: in_set_butlastD)
  then show ?thesis by (simp only: dom_map_of_conv_image_fst)
qed

lemma keys_lru_Add:
  "dom (map_of (lru_items (fst (lru_Add now l k v)))) \<subseteq> insert k (dom (map_of (lru_items l)))"
proof (cases "map_of (lru_items l) k")
  case None
  have "dom (map_of (butlast ((k, v, now + lru_ttl l) # lru_items l)))
      \<subseteq> insert k (dom (map_of (lru_items l)))"
    using keys_butlast [of "(k, v, now + lru_ttl l) # lru_items l"] by auto
  then show ?thesis
    by (auto simp: lru_Add_def None Let_def simp del: butlast.simps)
next
  case (Some old)
  show ?thesis
    using keys_lru_del [of k "lru_items l"] by (auto simp: lru_Add_def Some)
qed

lemma keys_lru_Add_present:
  assumes "map_of (lru_items l) k \<noteq> None"
  shows "dom (map_of (lru_items (fst (lru_Add now l k v)))) \<subseteq> dom (map_of (lru_items l))"
proof -
  from assms have "k \<in> dom (map_of (lru_items l))" by auto
  with keys_lru_Add [of now l k v] show ?thesis by auto
qed

lemma keys_lru_Get:
  "dom (map_of (lru_items (fst (lru_Get now l k)))) \<subseteq> dom (map_of (lru_items l))"
proof (cases "map_of (lru_items l) k")
  case None
  then show ?thesis by (simp add: lru_Get_def)
next
  case (Some ve)
  then have "k \<in> dom (map_of (lru_items l))" by auto
  with keys_lru_del [of k "lru_items l"] Some show ?thesis
    by (cases ve) (auto simp: lru_Get_def)
qed

lemma lru_Get_Some_present:
  "lru_Get now l k = (l', Some v) \<Longrightarrow> map_of (lru_items l') k \<noteq> None"
  by (auto simp: lru_Get_def split: option.splits if_splits)

lemma keys_Get: "dom (map_of (lru_items (fileCache (fst (Get c now k)))))
    \<subseteq> dom (map_of (lru_items (fileCache c)))"
proof (cases "lru_Get now (notFoundCache c) k")
  case (Pair nf r)
  show ?thesis
  proof (cases r)
    case (Some u)
    with Pair show ?thesis by (simp add: Get_def)
  next
    case None
    obtain fc r' where g: "lru_Get now (fileCache c) k = (fc, r')"
      by (cases "lru_Get now (fileCache c) k")
    show ?thesis
    proof (cases r')
      case None
      with Pair \<open>r = None\<close> g show ?thesis by (simp add: Get_def)
    next
      case (Some entry)
      obtain fc' ev where a: "lru_Add now fc k entry = (fc', ev)"
        by (cases "lru_Add now fc k entry")
      have "dom (map_of (lru_items fc')) \<subseteq> dom (map_of (lru_items fc))"
        using keys_lru_Add_present [OF lru_Get_Some_present, of now "fileCache c" k fc entry now entry]
          g Some a by simp
      moreover have "dom (map_of (lru_items fc)) \<subseteq> dom (map_of (lru_items (fileCache c)))"
        using keys_lru_Get [of now "fileCache c" k] g by simp
      ultimately show ?thesis
        using Pair \<open>r = None\<close> g Some a by (simp add: Get_def foldl_onEvict_frame)
    qed
  qed
qed

lemma pending_Get: "pending (fst (Get c now k)) = pending c"
  by (auto simp: Get_def foldl_onEvict_frame split: prod.splits option.splits)

lemma keys_evictIfNeeded:
  "dom (map_of (lru_items (fileCache (evictIfNeeded c i)))) \<subseteq> dom (map_of (lru_items (fileCache c)))"
proof -
  from evictIfNeeded_evicts [of c i] obtain ev where
    "lru_items (fileCache c) = lru_items (fileCache (evictIfNeeded c i)) @ ev" by blast
  then have "set (lru_items (fileCache (evictIfNeeded c i))) \<subseteq> set (lru_items (fileCache c))"
    by (metis set_append Un_upper1)
  then have "fst ` set (lru_items (fileCache (evictIfNeeded c i)))
      \<subseteq> fst ` set (lru_items (fileCache c))" by blast
  then show ?thesis by (simp only: dom_map_of_conv_image_fst)
qed

lemma keys_CompletePending:
  "dom (map_of (lru_items (fileCache (CompletePending H c now k sz ct))))
     \<subseteq> dom (map_of (lru_items (fileCache c))) \<union> (if pending c k = None then {} else {k})"
proof (cases "pending c k")
  case None
  then show ?thesis by (simp add: CompletePending_def)
next
  case (Some a)
  let ?c0 = "c\<lparr>pending := (pending c)(k := None), sfs := (sfs c)[a := sf_Complete (sfs c ! a)]\<rparr>"
  let ?c3 = "evictIfNeeded ?c0 sz"
  let ?e = "\<lparr>Key = k, FilePath = filePath H (config ?c3) k, Size = sz,
             ContentType = ct, CreatedAt = now\<rparr>"
  have "dom (map_of (lru_items (fst (lru_Add now (fileCache ?c3) k ?e))))
      \<subseteq> insert k (dom (map_of (lru_items (fileCache ?c3))))"
    by (rule keys_lru_Add)
  moreover have "dom (map_of (lru_items (fileCache ?c3))) \<subseteq> dom (map_of (lru_items (fileCache c)))"
    using keys_evictIfNeeded [of ?c0 sz] by simp
  moreover have "fileCache (CompletePending H c now k sz ct) = fst (lru_Add now (fileCache ?c3) k ?e)"
    using Some by (simp add: CompletePending_def Let_def foldl_onEvict_frame split: prod.splits)
  ultimately show ?thesis using Some by auto
qed

lemma pending_CompletePending:
  "pending (CompletePending H c now k sz ct) = (pending c)(k := None)"
proof (cases "pending c k")
  case None
  then show ?thesis by (auto simp: CompletePending_def)
next
  case (Some a)
  then show ?thesis
    by (simp add: CompletePending_def Let_def foldl_onEvict_frame evictIfNeeded_frame
        split: prod.splits)
qed

lemma keys_Remove: "dom (map_of (lru_items (fileCache (Remove c k))))
    \<subseteq> dom (map_of (lru_items (fileCache c)))"
  using keys_lru_del [of k "lru_items (fileCache c)"]
  by (auto simp: Remove_def lru_Remove_def Let_def foldl_onEvict_frame
      split: prod.splits option.splits)

lemma pending_Remove: "pending (Remove c k) = pending c"
  by (simp add: Remove_def Let_def foldl_onEvict_frame split: prod.splits)

lemma keys_expire: "dom (map_of (lru_items (fileCache (expire c now))))
    \<subseteq> dom (map_of (lru_items (fileCache c)))"
proof -
  have "fst ` set (filter (\<lambda>x. \<not> now > snd (snd x)) (lru_items (fileCache c)))
      \<subseteq> fst ` set (lru_items (fileCache c))" by auto
  then have "dom (map_of (filter (\<lambda>x. \<not> now > snd (snd x)) (lru_items (fileCache c))))
      \<subseteq> dom (map_of (lru_items (fileCache c)))"
    by (simp only: dom_map_of_conv_image_fst)
  then show ?thesis
    by (simp add: expire_def lru_deleteExpired_def Let_def foldl_onEvict_frame)
qed

lemma pending_expire: "pending (expire c now) = pending c"
  by (simp add: expire_def Let_def foldl_onEvict_frame split: prod.splits)

lemma frame_FailPending:
  "fileCache (FailPending c k) = fileCache c \<and> pending (FailPending c k) = (pending c)(k := None)"
  by (auto simp: FailPending_def Let_def split: option.splits prod.splits)

lemma frame_GetOrCreatePending:
  "fileCache (fst (GetOrCreatePending H c k io)) = fileCache c
   \<and> dom (pending (fst (GetOrCreatePending H c k io))) \<subseteq> insert k (dom (pending c))"
  by (auto simp: GetOrCreatePending_def split: option.splits io_result.splits prod.splits)

section \<open>Properties of index persistence\<close>


















section \<open>Properties of the proxy\<close>

lemma hdr_Get_Set: "hdr_Get (hdr_Set w k v) k' = (if k' = k then Some v else hdr_Get w k')"
  by (simp add: hdr_Get_def hdr_Set_def update_conv')

lemma rw_header_WriteHeader [simp]: "rw_header (rw_WriteHeader w code) = rw_header w"
  by (simp add: rw_WriteHeader_def)

lemma rw_header_Write [simp]: "rw_header (fst (rw_Write w d)) = rw_header w"
  by (simp add: rw_Write_def Let_def)

lemma hdr_Get_WriteHeader [simp]: "hdr_Get (rw_WriteHeader w code) k = hdr_Get w k"
  by (simp add: hdr_Get_def)

lemma hdr_Get_Write [simp]: "hdr_Get (fst (rw_Write w d)) k = hdr_Get w k"
  by (simp add: hdr_Get_def)

lemma rw_header_CopyBuffer [simp]: "rw_header (fst (io_CopyBuffer w d)) = rw_header w"
  by (simp add: io_CopyBuffer_def case_prod_beta)

lemma hdr_Get_CopyBuffer [simp]: "hdr_Get (fst (io_CopyBuffer w d)) k = hdr_Get w k"
  by (simp add: hdr_Get_def)

lemma hdr_Get_Del: "hdr_Get (hdr_Del w k) k' = (if k' = k then None else hdr_Get w k')"
  by (simp add: hdr_Get_def hdr_Del_def delete_conv')

lemma hdr_Get_http_Error:
  "k \<noteq> ''Content-Length'' \<Longrightarrow> k \<noteq> ''Content-Type'' \<Longrightarrow> k \<noteq> ''X-Content-Type-Options'' \<Longrightarrow>
     hdr_Get (http_Error w msg code) k = hdr_Get w k"
  by (simp add: http_Error_def Let_def hdr_Get_Set hdr_Get_Del)

lemma xcache_http_Error [simp]:
  "hdr_Get (http_Error w msg code) ''X-Cache'' = hdr_Get w ''X-Cache''"
  by (rule hdr_Get_http_Error) simp_all

lemma xcache_serveRangeFromFile [simp]:
  "hdr_Get (fst (serveRangeFromFile w file S h)) ''X-Cache'' = hdr_Get w ''X-Cache''"
proof (cases "parseRange h S")
  case None
  then show ?thesis
    by (simp add: serveRangeFromFile_def hdr_Get_Set)
next
  case (Some se)
  obtain s e where "se = (s, e)" by (cases se)
  with Some show ?thesis
    by (simp add: serveRangeFromFile_def Let_def hdr_Get_Set case_prod_beta)
qed

lemma xcache_serveFromCache:
  "hdr_Get (fst (serveFromCache c w r entry)) ''X-Cache'' = Some ''HIT''
   \<or> hdr_Get (fst (serveFromCache c w r entry)) ''X-Cache'' = hdr_Get w ''X-Cache''"
proof (cases "files (disk c) (FilePath entry)")
  case None
  then show ?thesis by (simp add: serveFromCache_def)
next
  case (Some content)
  let ?w3 = "hdr_Set (hdr_Set (hdr_Set w ''Content-Type'' (ContentType entry))
      ''Accept-Ranges'' ''bytes'') ''X-Cache'' ''HIT''"
  let ?w4 = "hdr_Set ?w3 ''Content-Length'' (FormatInt (Size entry))"
  have "hdr_Get (fst (serveFromCache c w r entry)) ''X-Cache'' = Some ''HIT''"
    using Some
    by (simp add: serveFromCache_def Let_def hdr_Get_Set case_prod_beta)
  then show ?thesis ..
qed

lemma tee_chunk_header [simp]:
  "rw_header (fst (snd (tee_chunk c w a isNew tw d))) = rw_header w"
  by (simp add: tee_chunk_def case_prod_beta)

lemma download_loop_header [simp]:
  "rw_header (fst (snd (download_loop c w a isNew tw ds fin))) = rw_header w"
proof (induction ds arbitrary: c w isNew tw)
  case Nil
  show ?case
    by (cases fin) (simp add: case_prod_beta)
next
  case (Cons d ds)
  show ?case
    using Cons.IH [of "fst (tee_chunk c w a isNew tw d)" "fst (snd (tee_chunk c w a isNew tw d))"
        "fst (snd (snd (tee_chunk c w a isNew tw d)))"
        "fst (snd (snd (snd (tee_chunk c w a isNew tw d))))"]
    by (simp add: case_prod_beta)
qed

lemma download_loop_hdr_Get [simp]:
  "hdr_Get (fst (snd (download_loop c w a isNew tw ds fin))) k = hdr_Get w k"
  by (simp add: hdr_Get_def)

lemma xcache_miss_headers [simp]:
  "hdr_Get (miss_headers w ct n) ''X-Cache'' = Some ''MISS''"
  by (simp add: miss_headers_def Let_def hdr_Get_Set)

lemma xcache_doFetchAndServe:
  "hdr_Get (fst (snd (doFetchAndServe H p env w r key lock))) ''X-Cache'' = Some ''MISS''
   \<or> hdr_Get (fst (snd (doFetchAndServe H p env w r key lock))) ''X-Cache'' = hdr_Get w ''X-Cache''"
proof (cases "env_upstream env (TrimSuffix (UpstreamURL (config (cache p))) ''/'' @ key)")
  case RequestError
  then show ?thesis by (simp add: doFetchAndServe_def)
next
  case TransportError
  then show ?thesis by (simp add: doFetchAndServe_def)
next
  case (Resp resp)
  show ?thesis
  proof (cases "resp_StatusCode resp = 200")
    case False
    with Resp show ?thesis by (simp add: doFetchAndServe_def Let_def)
  next
    case True
    obtain c1 res where g: "GetOrCreatePending H (cache p) key (env_io env) = (c1, res)"
      by (cases "GetOrCreatePending H (cache p) key (env_io env)")
    show ?thesis
    proof (cases res)
      case (Inl err)
      with Resp True g show ?thesis by (simp add: doFetchAndServe_def Let_def)
    next
      case (Inr an)
      obtain a isNew where "an = (a, isNew)" by (cases an)
      with Inr Resp True g show ?thesis
        by (simp add: doFetchAndServe_def Let_def case_prod_beta)
    qed
  qed
qed

lemma xcache_serveFromCacheOrError:
  "hdr_Get (fst (snd (serveFromCacheOrError p env w r key))) ''X-Cache'' = Some ''HIT''
   \<or> hdr_Get (fst (snd (serveFromCacheOrError p env w r key))) ''X-Cache'' = hdr_Get w ''X-Cache''"
proof -
  obtain c1 nf where i: "IsNotFound (cache p) (env_now env) key = (c1, nf)"
    by (cases "IsNotFound (cache p) (env_now env) key")
  obtain c2 hit where g: "Get c1 (env_now env) key = (c2, hit)"
    by (cases "Get c1 (env_now env) key")
  show ?thesis
  proof (cases "nf \<or> hit = None \<or> \<not> validateCacheFile c2 (the hit)")
    case True
    with i g show ?thesis
      by (cases nf) (auto simp: serveFromCacheOrError_def split: option.splits)
  next
    case False
    then obtain entry where "hit = Some entry" by auto
    with False i g xcache_serveFromCache [of c2 w r entry] show ?thesis
      by (cases nf) (auto simp: serveFromCacheOrError_def case_prod_beta)
  qed
qed

lemma stream_loop_header:
  "stream_loop c w a offset opened evs = Some (c', w', e) \<Longrightarrow> rw_header w' = rw_header w"
proof (induction c w a offset opened evs rule: stream_loop.induct)
  case (1 c w a offset opened evs)
  show ?case
  proof (cases "reader_Read c a offset opened")
    case Wait
    show ?thesis
    proof (cases evs)
      case Nil
      with Wait "1.prems" show ?thesis by (simp add: stream_loop.simps [of c w])
    next
      case (Cons ev evs')
      with Wait "1.prems"
      have "stream_loop (cache_sf_apply c a ev) w a offset True evs' = Some (c', w', e)"
        by (simp add: stream_loop.simps [of c w])
      with "1.IH"(1) [OF Wait Cons] show ?thesis .
    qed
  next
    case (Done data readErr)
    let ?wr = "if data = [] then (w, 0, False) else rw_Write w data"
    have hw: "rw_header (fst ?wr) = rw_header w" by simp
    obtain w1 n failed where wr: "?wr = (w1, n, failed)" by (cases ?wr)
    with hw have h1: "rw_header w1 = rw_header w" by simp
    show ?thesis
    proof (cases "failed \<or> readErr \<noteq> None")
      case True
      with Done wr "1.prems" have "w' = w1"
        by (auto simp: stream_loop.simps [of c w] split: option.splits read_err.splits if_splits)
      with h1 show ?thesis by simp
    next
      case False
      with Done wr "1.prems"
      have "stream_loop c w1 a (offset + int (length data)) True evs = Some (c', w', e)"
        by (simp add: stream_loop.simps [of c w])
      with "1.IH"(2) [OF Done wr [symmetric] refl _ _] False h1 show ?thesis by simp
    qed
  qed
qed

lemma cache_sf_apply_length [simp]: "length (sfs (cache_sf_apply c a ev)) = length (sfs c)"
  by (simp add: cache_sf_apply_def case_prod_beta)

lemma cache_sf_apply_done:
  assumes "a < length (sfs c)"
  shows "sf_done (sfs (cache_sf_apply c a ev) ! a) \<longleftrightarrow>
    sf_done (sfs c ! a) \<or> ev = SfComplete \<or> ev = SfAbort"
  using assms
  by (cases ev)
     (auto simp: cache_sf_apply_def sf_Write_def sf_Complete_def sf_Abort_def case_prod_beta)

lemma reader_Read_Wait: "reader_Read c a offset opened = Wait \<Longrightarrow> \<not> sf_done (sfs c ! a)"
  by (auto simp: reader_Read_def Let_def split: if_splits option.splits)

lemma stream_loop_returns:
  assumes "a < length (sfs c)"
    and "sf_done (sfs c ! a) \<or> SfComplete \<in> set evs \<or> SfAbort \<in> set evs"
  shows "stream_loop c w a offset opened evs \<noteq> None"
  using assms
proof (induction c w a offset opened evs rule: stream_loop.induct)
  case (1 c w a offset opened evs)
  show ?case
  proof (cases "reader_Read c a offset opened")
    case Wait
    from reader_Read_Wait [OF Wait] "1.prems"(2)
    have t: "SfComplete \<in> set evs \<or> SfAbort \<in> set evs" by simp
    then obtain ev evs' where evs: "evs = ev # evs'" by (cases evs) auto
    have "sf_done (sfs (cache_sf_apply c a ev) ! a) \<or> SfComplete \<in> set evs' \<or> SfAbort \<in> set evs'"
      using t evs cache_sf_apply_done [OF "1.prems"(1), of ev] by auto
    moreover have "a < length (sfs (cache_sf_apply c a ev))"
      using "1.prems"(1) by simp
    ultimately have "stream_loop (cache_sf_apply c a ev) w a offset True evs' \<noteq> None"
      by (rule "1.IH"(1) [OF Wait evs, rotated])
    with Wait evs show ?thesis by (simp add: stream_loop.simps [of c w])
  next
    case (Done data readErr)
    obtain w1 n failed where wr: "(if data = [] then (w, 0, False) else rw_Write w data) = (w1, n, failed)"
      by (cases "if data = [] then (w, 0, False) else rw_Write w data")
    show ?thesis
    proof (cases "failed \<or> readErr \<noteq> None")
      case True
      with Done wr show ?thesis
        by (auto simp: stream_loop.simps [of c w] split: option.splits read_err.splits)
    next
      case False
      then have f: "\<not> failed" and r: "readErr = None" by simp_all
      from "1.IH"(2) [OF Done wr [symmetric] refl f r "1.prems"]
      have "stream_loop c w1 a (offset + int (length data)) True evs \<noteq> None" .
      with Done wr f r show ?thesis by (simp add: stream_loop.simps [of c w])
    qed
  qed
qed

lemma serveFromStreaming_header:
  assumes "serveFromStreaming p env w r a = Some (p', w', e)"
  shows "rw_header w' = AList.update ''X-Cache'' ''STREAMING'' (rw_header w)"
proof (cases "req_Method r = ''HEAD''")
  case True
  with assms show ?thesis by (auto simp: serveFromStreaming_def hdr_Set_def)
next
  case False
  with assms obtain c' where
    "stream_loop (cache p) (hdr_Set w ''X-Cache'' ''STREAMING'') a 0 False (env_writer env)
      = Some (c', w', e)"
    by (auto simp: serveFromStreaming_def Let_def)
  from stream_loop_header [OF this] show ?thesis by (simp add: hdr_Set_def)
qed

lemma fetchAndServe_streaming_header:
  assumes "fetchAndServe H p env w r key = Some (p', w', e)"
    and "hdr_Get w ''X-Cache'' = None"
    and "hdr_Get w' ''X-Cache'' = Some ''STREAMING''"
  shows "rw_header w' = AList.update ''X-Cache'' ''STREAMING'' (rw_header w)"
proof -
  obtain p1 lock where l: "LoadOrStore p key = (p1, lock)"
    by (cases "LoadOrStore p key")
  show ?thesis
  proof (cases "fl_done (locks p1 ! lock)")
    case True
    with assms(1) l have "w' = http_Error w ''Not Found'' 404
        \<or> w' = fst (snd (serveFromCacheOrError p1 env w r key))"
      by (auto simp: fetchAndServe_def split: if_splits)
    with assms(2,3) xcache_serveFromCacheOrError [of p1 env w r key] show ?thesis
      by auto
  next
    case False
    show ?thesis
    proof (cases "GetPending (cache p1) key")
      case None
      with False assms(1) l have "w' = fst (snd (doFetchAndServe H p1 env w r key lock))"
        by (auto simp: fetchAndServe_def)
      with assms(2,3) xcache_doFetchAndServe [of H p1 env w r key lock] show ?thesis
        by auto
    next
      case (Some a)
      with False assms(1) l have "serveFromStreaming p1 env w r a = Some (p', w', e)"
        by (simp add: fetchAndServe_def)
      then show ?thesis by (rule serveFromStreaming_header)
    qed
  qed
qed

lemma handleRequest_streaming_header:
  assumes "handleRequest H p env w r key = Some (p', w', e)"
    and "hdr_Get w ''X-Cache'' = None"
    and "hdr_Get w' ''X-Cache'' = Some ''STREAMING''"
  shows "rw_header w' = AList.update ''X-Cache'' ''STREAMING'' (rw_header w)"
proof -
  obtain c1 nf where i: "IsNotFound (cache p) (env_now env) key = (c1, nf)"
    by (cases "IsNotFound (cache p) (env_now env) key")
  obtain c2 hit where g: "Get c1 (env_now env) key = (c2, hit)"
    by (cases "Get c1 (env_now env) key")
  show ?thesis
  proof (cases nf)
    case True
    with assms i show ?thesis by (auto simp: handleRequest_def)
  next
    case False
    show ?thesis
    proof (cases hit)
      case None
      with False i g assms(1) have "fetchAndServe H (p\<lparr>cache := c2\<rparr>) env w r key = Some (p', w', e)"
        by (simp add: handleRequest_def)
      from fetchAndServe_streaming_header [OF this assms(2,3)] show ?thesis .
    next
      case (Some entry)
      show ?thesis
      proof (cases "validateCacheFile c2 entry")
        case True
        with Some False i g assms(1) have "w' = fst (serveFromCache c2 w r entry)"
          by (auto simp: handleRequest_def case_prod_beta)
        with assms(2,3) xcache_serveFromCache [of c2 w r entry] show ?thesis by auto
      next
        case invalid: False
        with Some False i g assms(1)
        have "fetchAndServe H (p\<lparr>cache := Remove c2 key\<rparr>) env w r key = Some (p', w', e)"
          by (simp add: handleRequest_def)
        from fetchAndServe_streaming_header [OF this assms(2,3)] show ?thesis .
      qed
    qed
  qed
qed

text \<open>
  C10. \<open>serveFromStreaming\<close> changes the header map in one place only: it sets
  \<open>X-Cache: STREAMING\<close>. It returns for HEAD at once, and for GET once the writer has
  completed or aborted the StreamingFile. For a GET or HEAD request that \<open>ServeHTTP\<close>
  answers with \<open>X-Cache: STREAMING\<close>, starting from an empty header map, the header map
  of the response is that one header: no \<open>Content-Type\<close>, no \<open>Accept-Ranges\<close> and no
  \<open>Content-Length\<close> is set.
\<close>

theorem C10_streaming_sets_only_x_cache:
  "(serveFromStreaming p env w r a = Some (p', w', e) \<longrightarrow>
      rw_header w' = AList.update ''X-Cache'' ''STREAMING'' (rw_header w))
   \<and> (req_Method r = ''HEAD'' \<longrightarrow> serveFromStreaming p env w r a \<noteq> None)
   \<and> (a < length (sfs (cache p))
       \<and> (sf_done (sfs (cache p) ! a) \<or> SfComplete \<in> set (env_writer env)
           \<or> SfAbort \<in> set (env_writer env)) \<longrightarrow>
      serveFromStreaming p env w r a \<noteq> None)
   \<and> (rw_header w = [] \<and> ServeHTTP H p env w r = Some (p2, w2)
       \<and> hdr_Get w2 ''X-Cache'' = Some ''STREAMING'' \<longrightarrow>
      rw_header w2 = [(''X-Cache'', ''STREAMING'')]
      \<and> hdr_Get w2 ''Content-Type'' = None \<and> hdr_Get w2 ''Accept-Ranges'' = None
      \<and> hdr_Get w2 ''Content-Length'' = None)"
proof -
  have A: "serveFromStreaming p env w r a = Some (p', w', e) \<longrightarrow>
      rw_header w' = AList.update ''X-Cache'' ''STREAMING'' (rw_header w)"
    using serveFromStreaming_header by blast
  have B: "req_Method r = ''HEAD'' \<longrightarrow> serveFromStreaming p env w r a \<noteq> None"
    by (simp add: serveFromStreaming_def)
  have C: "a < length (sfs (cache p))
       \<and> (sf_done (sfs (cache p) ! a) \<or> SfComplete \<in> set (env_writer env)
           \<or> SfAbort \<in> set (env_writer env)) \<longrightarrow>
      serveFromStreaming p env w r a \<noteq> None"
  proof
    assume h: "a < length (sfs (cache p))
       \<and> (sf_done (sfs (cache p) ! a) \<or> SfComplete \<in> set (env_writer env)
           \<or> SfAbort \<in> set (env_writer env))"
    then have "stream_loop (cache p) (hdr_Set w ''X-Cache'' ''STREAMING'') a 0 False
        (env_writer env) \<noteq> None"
      by (intro stream_loop_returns) simp_all
    then show "serveFromStreaming p env w r a \<noteq> None"
      by (auto simp: serveFromStreaming_def Let_def)
  qed
  have D: "rw_header w = [] \<and> ServeHTTP H p env w r = Some (p2, w2)
       \<and> hdr_Get w2 ''X-Cache'' = Some ''STREAMING'' \<longrightarrow>
      rw_header w2 = [(''X-Cache'', ''STREAMING'')]
      \<and> hdr_Get w2 ''Content-Type'' = None \<and> hdr_Get w2 ''Accept-Ranges'' = None
      \<and> hdr_Get w2 ''Content-Length'' = None"
  proof
    assume h: "rw_header w = [] \<and> ServeHTTP H p env w r = Some (p2, w2)
       \<and> hdr_Get w2 ''X-Cache'' = Some ''STREAMING''"
    then have e: "rw_header w = []" and s: "ServeHTTP H p env w r = Some (p2, w2)"
      and x: "hdr_Get w2 ''X-Cache'' = Some ''STREAMING''" by simp_all
    from e have x0: "hdr_Get w ''X-Cache'' = None" by (simp add: hdr_Get_def)
    have m: "\<not> (req_Method r \<noteq> ''GET'' \<and> req_Method r \<noteq> ''HEAD'')"
    proof
      assume "req_Method r \<noteq> ''GET'' \<and> req_Method r \<noteq> ''HEAD''"
      with s have "w2 = http_Error w ''Method not allowed'' 405"
        by (simp add: ServeHTTP_def)
      with x x0 show False by simp
    qed
    with s obtain err where "handleRequest H p env w r (req_Path r) = Some (p2, w2, err)"
      by (auto simp: ServeHTTP_def)
    from handleRequest_streaming_header [OF this x0 x] e
    have "rw_header w2 = [(''X-Cache'', ''STREAMING'')]" by simp
    then show "rw_header w2 = [(''X-Cache'', ''STREAMING'')]
      \<and> hdr_Get w2 ''Content-Type'' = None \<and> hdr_Get w2 ''Accept-Ranges'' = None
      \<and> hdr_Get w2 ''Content-Length'' = None"
      by (simp add: hdr_Get_def)
  qed
  from A B C D show ?thesis by blast
qed

text \<open>
  The witness: \<open>/a\<close> is pending with the bytes \<open>ab\<close>, and while the reader waits the
  writer appends \<open>cd\<close> and completes. A GET of \<open>/a\<close> is answered with the body \<open>abcd\<close>
  and the single header \<open>X-Cache: STREAMING\<close>.
\<close>

theorem C10_streaming_witness:
  "rw_header fresh_writer = []
   \<and> hdr_Get (snd (the (ServeHTTP H0 p_pending env_hello fresh_writer get_a))) ''X-Cache''
       = Some ''STREAMING''
   \<and> rw_body (snd (the (ServeHTTP H0 p_pending env_hello fresh_writer get_a))) = ''abcd''
   \<and> rw_header (snd (the (ServeHTTP H0 p_pending env_hello fresh_writer get_a)))
       = [(''X-Cache'', ''STREAMING'')]
   \<and> serveFromStreaming p_pending env_hello fresh_writer get_a 0 \<noteq> None"
proof -
  let ?r = "ServeHTTP H0 p_pending env_hello fresh_writer get_a"
  have e: "rw_header fresh_writer = []" by (simp add: fresh_writer_def)
  have i: "IsNotFound (cache p_pending) 10 ''/a'' = (cache p_pending, False)"
    by (simp add: IsNotFound_def p_pending_def empty_cache_def NewLRU_def lru_Get_def)
  have g: "Get (cache p_pending) 10 ''/a'' = (cache p_pending, None)"
    by (simp add: Get_def p_pending_def empty_cache_def NewLRU_def lru_Get_def)
  have f: "LoadOrStore p_pending ''/a'' = (p_pending, 0)" "fl_done (locks p_pending ! 0) = False"
    "GetPending (cache p_pending) ''/a'' = Some 0" "p_pending\<lparr>cache := cache p_pending\<rparr> = p_pending"
    by (simp_all add: p_pending_def GetPending_def LoadOrStore_def)
  have en: "env_now env_hello = 10" "env_writer env_hello = [SfWrite ''cd'', SfComplete]"
    by (simp_all add: env_hello_def)
  have rq: "req_Method get_a = ''GET''" "req_Path get_a = ''/a''"
    by (simp_all add: get_a_def)
  have h: "handleRequest H0 p_pending env_hello fresh_writer get_a ''/a''
      = serveFromStreaming p_pending env_hello fresh_writer get_a 0"
    by (simp add: handleRequest_def en i g f fetchAndServe_def)
  have s: "stream_loop (cache p_pending) (hdr_Set fresh_writer ''X-Cache'' ''STREAMING'') 0 0 False
      [SfWrite ''cd'', SfComplete] \<noteq> None"
    by (rule stream_loop_returns) (simp_all add: p_pending_def)
  then obtain c' w' err where sl: "stream_loop (cache p_pending)
      (hdr_Set fresh_writer ''X-Cache'' ''STREAMING'') 0 0 False [SfWrite ''cd'', SfComplete]
      = Some (c', w', err)"
    by (cases "stream_loop (cache p_pending) (hdr_Set fresh_writer ''X-Cache'' ''STREAMING'')
      0 0 False [SfWrite ''cd'', SfComplete]") auto
  have body: "rw_body w' = ''abcd''"
    using sl
    by (auto simp: stream_loop.simps reader_Read_def p_pending_def empty_cache_def bufSize_def
        hdr_Set_def fresh_writer_def rw_Write_def rw_WriteHeader_def Let_def cache_sf_apply_def
        sf_Write_def file_Write_def sf_Complete_def)
  have r: "?r = Some (p_pending\<lparr>cache := c'\<rparr>, w')"
    by (simp add: ServeHTTP_def rq h serveFromStreaming_def en sl Let_def)
  have x: "hdr_Get w' ''X-Cache'' = Some ''STREAMING''"
    using stream_loop_header [OF sl] by (simp add: hdr_Get_def hdr_Set_def fresh_writer_def)
  from C10_streaming_sets_only_x_cache [of p_pending env_hello fresh_writer get_a 0 _ _ _ H0
      "p_pending\<lparr>cache := c'\<rparr>" w'] e r x
  have hd: "rw_header w' = [(''X-Cache'', ''STREAMING'')]" by blast
  have n: "serveFromStreaming p_pending env_hello fresh_writer get_a 0 \<noteq> None"
    by (simp add: serveFromStreaming_def rq en sl Let_def)
  from e x body hd n show ?thesis by (simp add: r)
qed

lemma tee_chunk_not_new:
  assumes "rw_accept w = None"
  shows "fst (tee_chunk c w a False tw d) = c
    \<and> rw_body (fst (snd (tee_chunk c w a False tw d))) = rw_body w @ d
    \<and> rw_accept (fst (snd (tee_chunk c w a False tw d))) = None
    \<and> \<not> fst (snd (snd (tee_chunk c w a False tw d)))
    \<and> fst (snd (snd (snd (tee_chunk c w a False tw d)))) = tw + int (length d)
    \<and> \<not> snd (snd (snd (snd (tee_chunk c w a False tw d))))"
  using assms
  by (simp add: tee_chunk_def rw_Write_def rw_WriteHeader_def Let_def)

lemma download_loop_not_new:
  assumes "rw_accept w = None"
  shows "fst (download_loop c w a False tw ds (d, e)) = c
    \<and> rw_body (fst (snd (download_loop c w a False tw ds (d, e)))) = rw_body w @ concat ds @ d
    \<and> \<not> fst (snd (snd (download_loop c w a False tw ds (d, e))))
    \<and> snd (snd (snd (snd (download_loop c w a False tw ds (d, e)))))
        = (if e = EOF then None else Some ''read upstream'')"
  using assms
proof (induction ds arbitrary: w tw)
  case Nil
  with tee_chunk_not_new [OF Nil, of c a tw d] show ?case
    by (simp add: case_prod_beta)
next
  case (Cons x xs)
  note t = tee_chunk_not_new [OF Cons.prems, of c a tw x]
  from t have acc: "rw_accept (fst (snd (tee_chunk c w a False tw x))) = None" by simp
  from Cons.IH [OF acc, of "tw + int (length x)"] t show ?case
    by (simp add: case_prod_beta)
qed

text \<open>
  C2, as the code has it. On a 200 from the upstream, a fetcher that finds the key
  already pending (\<open>is_new = false\<close>) keeps its own upstream response: the response is a
  MISS (\<open>X-Cache: MISS\<close>, with the upstream's content type), and for a GET whose client
  stays connected the body is the body that this fetcher read from the upstream. The
  fetcher neither reads nor writes the pending StreamingFile, and it leaves the cache
  (pending map, StreamingFiles, completed store, disk) as it was.
\<close>

theorem C2_not_new_serves_own_upstream_body:
  assumes up: "env_upstream env (TrimSuffix (UpstreamURL (config (cache p))) ''/'' @ key) = Resp resp"
    and ok: "resp_StatusCode resp = 200"
    and pend: "pending (cache p) key = Some a"
    and client: "rw_accept w = None"
    and res: "doFetchAndServe H p env w r key lock = (p', w', err)"
  shows "snd (GetOrCreatePending H (cache p) key (env_io env)) = Inr (a, False)
    \<and> hdr_Get w' ''X-Cache'' = Some ''MISS''
    \<and> rw_body w' = (if req_Method r = ''HEAD'' then rw_body w
                     else rw_body w @ concat (resp_Body resp) @ fst (resp_BodyEnd resp))
    \<and> cache p' = cache p"
proof -
  let ?ct = "if resp_ContentType resp = [] then ''application/octet-stream''
             else resp_ContentType resp"
  let ?w4 = "miss_headers w ?ct (resp_ContentLength resp)"
  have g: "GetOrCreatePending H (cache p) key (env_io env) = (cache p, Inr (a, False))"
    using pend by (simp add: GetOrCreatePending_def)
  have w4: "rw_accept ?w4 = None" "rw_body ?w4 = rw_body w"
    using client by (simp_all add: miss_headers_def Let_def hdr_Set_def)
  show ?thesis
  proof (cases "req_Method r = ''HEAD''")
    case True
    with res up ok g have "w' = ?w4" and "cache p' = cache p"
      by (auto simp: doFetchAndServe_def Let_def finishLock_def)
    with True g w4 show ?thesis by simp
  next
    case False
    obtain d e where fin: "resp_BodyEnd resp = (d, e)" by (cases "resp_BodyEnd resp")
    let ?dl = "download_loop (cache p) ?w4 a False 0 (resp_Body resp) (d, e)"
    note dl = download_loop_not_new [OF w4(1), of "cache p" a 0 "resp_Body resp" d e]
    have fd: "fst (finish_download H (fst ?dl) (env_now env) key (fst (snd (snd ?dl)))
        (fst (snd (snd (snd ?dl)))) (snd (snd (snd (snd ?dl)))) (resp_ContentLength resp) ?ct)
        = cache p"
      using dl by (simp add: finish_download_def)
    from res up ok g False fin have "w' = fst (snd ?dl)"
      and "cache p' = fst (finish_download H (fst ?dl) (env_now env) key (fst (snd (snd ?dl)))
        (fst (snd (snd (snd ?dl)))) (snd (snd (snd (snd ?dl)))) (resp_ContentLength resp) ?ct)"
      by (auto simp: doFetchAndServe_def Let_def case_prod_beta finishLock_def)
    with fd dl w4 False g fin show ?thesis by simp
  qed
qed

text \<open>
  The witness: \<open>/a\<close> is pending when a second fetcher, which had found nothing pending,
  gets its 200 from the upstream. Its response is a MISS with the upstream body \<open>hello\<close>.
\<close>

theorem C2_not_new_witness:
  "env_upstream env_hello (TrimSuffix (UpstreamURL (config (cache p_pending))) ''/'' @ ''/a'')
     = Resp up_hello
   \<and> resp_StatusCode up_hello = 200
   \<and> pending (cache p_pending) ''/a'' = Some 0
   \<and> rw_accept fresh_writer = None
   \<and> hdr_Get (fst (snd (doFetchAndServe H0 p_pending env_hello fresh_writer get_a ''/a'' 0)))
        ''X-Cache'' = Some ''MISS''
   \<and> rw_body (fst (snd (doFetchAndServe H0 p_pending env_hello fresh_writer get_a ''/a'' 0)))
        = ''hello''
   \<and> cache (fst (doFetchAndServe H0 p_pending env_hello fresh_writer get_a ''/a'' 0))
        = cache p_pending"
proof -
  let ?res = "doFetchAndServe H0 p_pending env_hello fresh_writer get_a ''/a'' 0"
  have up: "env_upstream env_hello (TrimSuffix (UpstreamURL (config (cache p_pending))) ''/'' @ ''/a'')
     = Resp up_hello"
    by (simp add: env_hello_def p_pending_def empty_cache_def cfg0_def TrimSuffix_def)
  have ok: "resp_StatusCode up_hello = 200" by (simp add: up_hello_def)
  have pend: "pending (cache p_pending) ''/a'' = Some 0" by (simp add: p_pending_def)
  have client: "rw_accept fresh_writer = None" by (simp add: fresh_writer_def)
  have res: "?res = (fst ?res, fst (snd ?res), snd (snd ?res))" by simp
  have b: "rw_body fresh_writer @ concat (resp_Body up_hello) @ fst (resp_BodyEnd up_hello) = ''hello''"
    by (simp add: fresh_writer_def up_hello_def)
  have m: "req_Method get_a \<noteq> ''HEAD''" by (simp add: get_a_def)
  from C2_not_new_serves_own_upstream_body [OF up ok pend client res] b m up ok pend client
  show ?thesis by simp
qed

text \<open>
  The claim as stated fails at the same input: with \<open>/a\<close> pending (so that
  \<open>GetOrCreatePending\<close> returns \<open>is_new = false\<close>), the fetcher does not serve the
  request from the StreamingFile. Serving from the StreamingFile gives the body \<open>abcd\<close>
  under \<open>X-Cache: STREAMING\<close>; the fetcher answers \<open>hello\<close>, its own upstream body, under
  \<open>X-Cache: MISS\<close>.
\<close>

theorem C2_counterexample:
  "snd (GetOrCreatePending H0 (cache p_pending) ''/a'' (env_io env_hello)) = Inr (0, False)
   \<and> map_option (\<lambda>x. (hdr_Get (fst (snd x)) ''X-Cache'', rw_body (fst (snd x))))
        (serveFromStreaming p_pending env_hello fresh_writer get_a 0)
       = Some (Some ''STREAMING'', ''abcd'')
   \<and> hdr_Get (fst (snd (doFetchAndServe H0 p_pending env_hello fresh_writer get_a ''/a'' 0)))
        ''X-Cache'' = Some ''MISS''
   \<and> rw_body (fst (snd (doFetchAndServe H0 p_pending env_hello fresh_writer get_a ''/a'' 0)))
        = ''hello''"
proof -
  have g: "snd (GetOrCreatePending H0 (cache p_pending) ''/a'' (env_io env_hello)) = Inr (0, False)"
    by (simp add: GetOrCreatePending_def p_pending_def)
  have s: "map_option (\<lambda>x. (hdr_Get (fst (snd x)) ''X-Cache'', rw_body (fst (snd x))))
        (serveFromStreaming p_pending env_hello fresh_writer get_a 0)
       = Some (Some ''STREAMING'', ''abcd'')"
    by (simp add: serveFromStreaming_def get_a_def env_hello_def Let_def
        stream_loop.simps reader_Read_def p_pending_def empty_cache_def bufSize_def
        hdr_Set_def hdr_Get_def fresh_writer_def rw_Write_def rw_WriteHeader_def
        cache_sf_apply_def sf_Write_def file_Write_def sf_Complete_def)
  have d: "hdr_Get (fst (snd (doFetchAndServe H0 p_pending env_hello fresh_writer get_a ''/a'' 0)))
        ''X-Cache'' = Some ''MISS''
     \<and> rw_body (fst (snd (doFetchAndServe H0 p_pending env_hello fresh_writer get_a ''/a'' 0)))
        = ''hello''"
    by (simp add: doFetchAndServe_def env_hello_def p_pending_def empty_cache_def cfg0_def
        TrimSuffix_def up_hello_def GetOrCreatePending_def get_a_def Let_def miss_headers_def
        tee_chunk_def rw_Write_def rw_WriteHeader_def hdr_Set_def hdr_Get_def fresh_writer_def
        finish_download_def finishLock_def)
  from g s d show ?thesis by blast
qed

text \<open>
  C3, at a failing input. The cache is empty, the disk accepts three more bytes, and a
  GET of \<open>/a\<close> finds \<open>hello\<close> upstream in the chunks \<open>hel\<close> and \<open>lo\<close>. The write of
  \<open>lo\<close> into the StreamingFile fails. The client is served in full, without an error;
  but \<open>FailPending\<close> is not called: \<open>/a\<close> stays in the pending map, its StreamingFile is
  neither done nor aborted, the partial file stays on disk, and nothing is completed.
  A later GET of \<open>/a\<close> is sent to that StreamingFile and waits for ever (\<open>None\<close>).
  \<open>FailPending\<close> on the same state would have removed the key and unlinked the file.
\<close>

theorem C3_write_failure_leaves_pending:
  "(case handleRequest H0 p_disk_full env_hello fresh_writer get_a ''/a'' of
      None \<Rightarrow> False
    | Some (p1, w1, err) \<Rightarrow>
        err = None \<and> rw_body w1 = ''hello'' \<and> hdr_Get w1 ''X-Cache'' = Some ''MISS''
        \<and> pending (cache p1) ''/a'' = Some 0
        \<and> sf_done (sfs (cache p1) ! 0) = False \<and> sf_err (sfs (cache p1) ! 0) = None
        \<and> sf_size (sfs (cache p1) ! 0) = 3
        \<and> files (disk (cache p1)) ''/c/00/00a'' = Some ''hel''
        \<and> lru_items (fileCache (cache p1)) = []
        \<and> handleRequest H0 p1 env_later fresh_writer get_a ''/a'' = None
        \<and> pending (FailPending (cache p1) ''/a'') ''/a'' = None
        \<and> files (disk (FailPending (cache p1) ''/a'')) ''/c/00/00a'' = None)"
  by (simp add: handleRequest_def fetchAndServe_def LoadOrStore_def doFetchAndServe_def serveFromStreaming_def
      IsNotFound_def Get_def GetPending_def lru_Get_def
      p_disk_full_def env_hello_def env_later_def get_a_def up_hello_def fresh_writer_def
      empty_cache_def NewLRU_def cfg0_def H0_def filePath_def TrimSuffix_def
      GetOrCreatePending_def NewStreamingFile_def os_Create_def Let_def miss_headers_def
      tee_chunk_def sf_Write_def file_Write_def rw_Write_def rw_WriteHeader_def
      hdr_Set_def hdr_Get_def finish_download_def finishLock_def
      stream_loop.simps reader_Read_def bufSize_def
      FailPending_def sf_Abort_def os_Remove_def)

section \<open>Properties of concurrent requests\<close>

lemma CompletePending_two_steps:
  "CompletePending H c now key sz ct =
     (case takePending c key of
        (c1, None) \<Rightarrow> c
      | (c1, Some a) \<Rightarrow> storeCompleted H c1 now key a sz ct)"
  by (simp add: CompletePending_def takePending_def storeCompleted_def Let_def
      split: option.splits)

lemma FailPending_two_steps:
  "FailPending c key =
     (case takePending c key of
        (c1, None) \<Rightarrow> c
      | (c1, Some a) \<Rightarrow> abortTaken c1 a)"
  by (simp add: FailPending_def takePending_def abortTaken_def Let_def split: option.splits)

lemma finish_download_disposition:
  "snd (finish_download H c now key isNew tw derr n ct) = disposition tw derr n"
  by (simp add: finish_download_def disposition_def)

lemma GetOrCreatePending_cases:
  assumes "GetOrCreatePending H c key io = (c1, r)"
  shows "case r of
           Inl e \<Rightarrow> c1 = c
         | Inr (a, isNew) \<Rightarrow>
             if isNew then pending c key = None \<and> pending c1 = (pending c)(key \<mapsto> a)
             else pending c key = Some a \<and> c1 = c"
  using assms
  by (auto simp: GetOrCreatePending_def NewStreamingFile_def
      split: option.splits io_result.splits)

lemma pending_storeCompleted [simp]:
  "pending (storeCompleted H c now key a sz ct) = pending c"
  by (simp add: storeCompleted_def Let_def foldl_onEvict_frame evictIfNeeded_frame
      split: prod.splits)

lemma pending_abortTaken [simp]: "pending (abortTaken c a) = pending c"
  by (simp add: abortTaken_def split: prod.splits)

lemma pending_PutNotFound [simp]: "pending (PutNotFound c now key) = pending c"
  by (simp add: PutNotFound_def)

lemma LoadOrStore_cache [simp]: "cache (fst (LoadOrStore p key)) = cache p"
  by (simp add: LoadOrStore_def split: option.splits)

lemma pending_perform [simp]: "pending (cache (perform H p now key act)) = pending (cache p)"
  by (cases act) (simp_all add: finishLock_def)

lemma req_step_Arrived:
  assumes "req_step H p key Arrived ev = (p', pc')"
  shows "cache p' = cache p \<and> (pc' = Arrived \<or> (\<exists>lock. pc' = Loaded lock))"
proof (cases ev)
  case EvLoad
  obtain p1 lock where l: "LoadOrStore p key = (p1, lock)" by (cases "LoadOrStore p key")
  then have "cache p1 = cache p" using LoadOrStore_cache [of p key] by simp
  with assms EvLoad l show ?thesis by auto
qed (use assms in auto)

lemma req_step_Loaded:
  assumes "req_step H p key (Loaded lock) ev = (p', pc')"
  shows "p' = p
    \<and> (pc' = Loaded lock \<or> pc' = Finished False
        \<or> (pc' = ToFetch lock \<and> pending (cache p) key = None)
        \<or> (\<exists>a. pc' = Reading a \<and> pending (cache p) key = Some a))"
  using assms
  by (cases ev) (auto simp: GetPending_def split: if_splits option.splits)

lemma req_step_ToFetch:
  assumes "req_step H p key (ToFetch lock) ev = (p', pc')"
  shows "p' = p \<and> writer_of pc' = None \<and> reader_of pc' = None"
  using assms by (cases ev) (auto split: if_splits)

lemma req_step_Reading:
  assumes "req_step H p key (Reading a) ev = (p', pc')"
  shows "p' = p \<and> (pc' = Reading a \<or> pc' = Finished False)"
  using assms by (cases ev) auto

lemma req_step_Finished:
  assumes "req_step H p key (Finished b) ev = (p', pc')"
  shows "p' = p \<and> pc' = Finished b"
  using assms by (cases ev) auto

lemma req_step_Leaving:
  assumes "req_step H p key (Leaving b acts) ev = (p', pc')"
  shows "pending (cache p') = pending (cache p)
    \<and> (pc' = Finished b \<or> (\<exists>acts'. pc' = Leaving b acts'))"
proof (cases acts)
  case Nil
  with assms show ?thesis by (cases ev) auto
next
  case (Cons act acts')
  with assms show ?thesis by (cases ev) (auto split: if_splits)
qed

lemma req_step_Fetching:
  assumes "req_step H p key (Fetching lock) ev = (p', pc')"
  shows "has_sent pc' \<and> reader_of pc' = None
    \<and> (\<forall>k'. k' \<noteq> key \<longrightarrow> pending (cache p') k' = pending (cache p) k')
    \<and> (case writer_of pc' of
          None \<Rightarrow> pending (cache p') key = pending (cache p) key
        | Some a \<Rightarrow> pending (cache p) key = None \<and> pending (cache p') key = Some a)"
proof (cases ev)
  case (EvResponse res io)
  show ?thesis
  proof (cases res)
    case (Resp resp)
    show ?thesis
    proof (cases "resp_StatusCode resp = 200")
      case False
      with assms EvResponse Resp show ?thesis by (auto split: if_splits)
    next
      case True
      obtain c1 r where g: "GetOrCreatePending H (cache p) key io = (c1, r)"
        by (cases "GetOrCreatePending H (cache p) key io")
      note gc = GetOrCreatePending_cases [OF g]
      show ?thesis
      proof (cases r)
        case (Inl e)
        with assms EvResponse Resp True g gc show ?thesis by auto
      next
        case (Inr an)
        obtain a isNew where an: "an = (a, isNew)" by (cases an)
        with assms EvResponse Resp True g gc Inr show ?thesis
          by (cases isNew) auto
      qed
    qed
  qed (use assms EvResponse in auto)
qed (use assms in auto)

lemma req_step_Streaming:
  assumes "req_step H p key (Streaming a isNew lock n ct) ev = (p', pc')"
  shows "has_sent pc' \<and> reader_of pc' = None
    \<and> (\<forall>k'. k' \<noteq> key \<longrightarrow> pending (cache p') k' = pending (cache p) k')
    \<and> (writer_of pc' = None \<or> (isNew \<and> writer_of pc' = Some a))
    \<and> (pending (cache p') key = pending (cache p) key
        \<or> (isNew \<and> writer_of pc' = None \<and> pending (cache p') key = None))"
proof (cases ev)
  case (EvChunk d)
  with assms show ?thesis
    by (auto simp: case_prod_beta split: if_splits)
next
  case (EvFinish tw derr)
  with assms show ?thesis
    by (cases isNew) (auto simp: takePending_def Let_def)
qed (use assms in \<open>auto split: if_splits\<close>)

lemma req_step_frame:
  assumes "req_step H p key pc ev = (p', pc')" and "k' \<noteq> key"
  shows "pending (cache p') k' = pending (cache p) k'"
proof (cases pc)
  case Arrived with assms req_step_Arrived [of H p key ev p' pc'] show ?thesis by simp
next
  case (Loaded l) with assms req_step_Loaded [of H p key l ev p' pc'] show ?thesis by simp
next
  case (ToFetch l) with assms req_step_ToFetch [of H p key l ev p' pc'] show ?thesis by simp
next
  case (Fetching l) with assms req_step_Fetching [of H p key l ev p' pc'] show ?thesis by simp
next
  case (Streaming a b l n ct)
  with assms req_step_Streaming [of H p key a b l n ct ev p' pc'] show ?thesis by simp
next
  case (Leaving b acts)
  with assms req_step_Leaving [of H p key b acts ev p' pc'] show ?thesis by simp
next
  case (Reading a) with assms req_step_Reading [of H p key a ev p' pc'] show ?thesis by simp
next
  case (Finished b) with assms req_step_Finished [of H p key b ev p' pc'] show ?thesis by simp
qed

lemma req_step_writer:
  assumes "req_step H p key pc ev = (p', pc')" and "writer_of pc' = Some a"
  shows "(writer_of pc = Some a \<and> pending (cache p') key = pending (cache p) key)
       \<or> (writer_of pc = None \<and> pending (cache p) key = None \<and> pending (cache p') key = Some a)"
proof (cases pc)
  case Arrived with assms req_step_Arrived [of H p key ev p' pc'] show ?thesis by auto
next
  case (Loaded l) with assms req_step_Loaded [of H p key l ev p' pc'] show ?thesis by auto
next
  case (ToFetch l) with assms req_step_ToFetch [of H p key l ev p' pc'] show ?thesis by simp
next
  case (Fetching l) with assms req_step_Fetching [of H p key l ev p' pc'] show ?thesis by simp
next
  case (Streaming a' b l n ct)
  with assms req_step_Streaming [of H p key a' b l n ct ev p' pc'] show ?thesis by auto
next
  case (Leaving b acts)
  with assms req_step_Leaving [of H p key b acts ev p' pc'] show ?thesis by auto
next
  case (Reading a') with assms req_step_Reading [of H p key a' ev p' pc'] show ?thesis by auto
next
  case (Finished b) with assms req_step_Finished [of H p key b ev p' pc'] show ?thesis by auto
qed

lemma req_step_not_writer:
  assumes "req_step H p key pc ev = (p', pc')" and "writer_of pc' = None"
  shows "pending (cache p') key = pending (cache p) key
       \<or> (writer_of pc \<noteq> None \<and> pending (cache p') key = None)"
proof (cases pc)
  case Arrived with assms req_step_Arrived [of H p key ev p' pc'] show ?thesis by simp
next
  case (Loaded l) with assms req_step_Loaded [of H p key l ev p' pc'] show ?thesis by simp
next
  case (ToFetch l) with assms req_step_ToFetch [of H p key l ev p' pc'] show ?thesis by simp
next
  case (Fetching l) with assms req_step_Fetching [of H p key l ev p' pc'] show ?thesis by simp
next
  case (Streaming a' b l n ct)
  with assms req_step_Streaming [of H p key a' b l n ct ev p' pc'] show ?thesis by auto
next
  case (Leaving b acts)
  with assms req_step_Leaving [of H p key b acts ev p' pc'] show ?thesis by simp
next
  case (Reading a') with assms req_step_Reading [of H p key a' ev p' pc'] show ?thesis by auto
next
  case (Finished b) with assms req_step_Finished [of H p key b ev p' pc'] show ?thesis by auto
qed

lemma req_step_has_sent:
  assumes "req_step H p key pc ev = (p', pc')" and "has_sent pc"
  shows "has_sent pc'"
proof (cases pc)
  case (Fetching l) with assms req_step_Fetching [of H p key l ev p' pc'] show ?thesis by simp
next
  case (Streaming a' b l n ct)
  with assms req_step_Streaming [of H p key a' b l n ct ev p' pc'] show ?thesis by auto
next
  case (Leaving b acts)
  with assms req_step_Leaving [of H p key b acts ev p' pc'] show ?thesis by auto
next
  case (Finished b) with assms req_step_Finished [of H p key b ev p' pc'] show ?thesis by auto
qed (use assms in auto)

lemma req_step_reader:
  assumes "req_step H p key pc ev = (p', pc')" and "reader_of pc' = Some a"
  shows "pc = Reading a
       \<or> (\<exists>lock. pc = Loaded lock \<and> ev = EvCheck \<and> \<not> fl_done (locks p ! lock)
             \<and> pending (cache p) key = Some a)"
proof (cases pc)
  case Arrived with assms req_step_Arrived [of H p key ev p' pc'] show ?thesis by auto
next
  case (Loaded l)
  with assms show ?thesis
    by (cases ev) (auto simp: GetPending_def split: if_splits option.splits)
next
  case (ToFetch l) with assms req_step_ToFetch [of H p key l ev p' pc'] show ?thesis by simp
next
  case (Fetching l) with assms req_step_Fetching [of H p key l ev p' pc'] show ?thesis by simp
next
  case (Streaming a' b l n ct)
  with assms req_step_Streaming [of H p key a' b l n ct ev p' pc'] show ?thesis by auto
next
  case (Leaving b acts)
  with assms req_step_Leaving [of H p key b acts ev p' pc'] show ?thesis by auto
next
  case (Reading a') with assms req_step_Reading [of H p key a' ev p' pc'] show ?thesis by auto
next
  case (Finished b) with assms req_step_Finished [of H p key b ev p' pc'] show ?thesis by auto
qed

lemma cstep_keys [simp]: "map fst (cs_reqs (cstep H s x)) = map fst (cs_reqs s)"
  by (cases x) (simp add: cstep_def case_prod_beta map_update list_update_same_conv)

lemma cstep_length [simp]: "length (cs_reqs (cstep H s x)) = length (cs_reqs s)"
  using cstep_keys [of H s x] by (metis length_map)

lemma crun_keys [simp]: "map fst (cs_reqs (crun H s xs)) = map fst (cs_reqs s)"
  by (induction xs arbitrary: s) simp_all

lemma crun_length [simp]: "length (cs_reqs (crun H s xs)) = length (cs_reqs s)"
  using crun_keys [of H s xs] by (metis length_map)

lemma crun_append: "crun H s (xs @ ys) = crun H (crun H s xs) ys"
  by (induction xs arbitrary: s) simp_all

lemma cstep_has_sent:
  assumes "j < length (cs_reqs s)" and "has_sent (snd (cs_reqs s ! j))"
  shows "has_sent (snd (cs_reqs (cstep H s x) ! j))"
proof (cases x)
  case (Pair i ev)
  show ?thesis
  proof (cases "i < length (cs_reqs s)")
    case False with Pair assms show ?thesis by (simp add: cstep_def)
  next
    case True
    obtain p' pc' where r: "req_step H (cs_proxy s) (fst (cs_reqs s ! i)) (snd (cs_reqs s ! i)) ev = (p', pc')"
      by (cases "req_step H (cs_proxy s) (fst (cs_reqs s ! i)) (snd (cs_reqs s ! i)) ev")
    show ?thesis
    proof (cases "j = i")
      case True
      with assms r req_step_has_sent have "has_sent pc'" by metis
      with Pair r True assms show ?thesis by (simp add: cstep_def)
    next
      case False
      with Pair r True assms show ?thesis by (simp add: cstep_def)
    qed
  qed
qed

lemma crun_has_sent:
  "j < length (cs_reqs s) \<Longrightarrow> has_sent (snd (cs_reqs s ! j)) \<Longrightarrow>
   has_sent (snd (cs_reqs (crun H s xs) ! j))"
  by (induction xs arbitrary: s) (simp_all add: cstep_has_sent)

lemma single_writer_pending:
  assumes "single_writer s" and "j < length (cs_reqs s)"
    and "writer_of (snd (cs_reqs s ! j)) = Some a"
  shows "pending (cache (cs_proxy s)) (fst (cs_reqs s ! j)) = Some a"
proof -
  from assms(1) have a: "\<forall>i < length (cs_reqs s). \<forall>a. writer_of (snd (cs_reqs s ! i)) = Some a \<longrightarrow>
          pending (cache (cs_proxy s)) (fst (cs_reqs s ! i)) = Some a"
    unfolding single_writer_def by (rule conjunct1)
  from a [rule_format, OF assms(2) assms(3)] show ?thesis .
qed

lemma single_writer_unique:
  assumes "single_writer s" and "j < length (cs_reqs s)" and "k < length (cs_reqs s)"
    and "j \<noteq> k" and "fst (cs_reqs s ! j) = fst (cs_reqs s ! k)"
    and "writer_of (snd (cs_reqs s ! j)) \<noteq> None"
  shows "writer_of (snd (cs_reqs s ! k)) = None"
proof -
  from assms(1) have a: "\<forall>i < length (cs_reqs s). \<forall>j < length (cs_reqs s).
            i \<noteq> j \<and> fst (cs_reqs s ! i) = fst (cs_reqs s ! j)
            \<and> writer_of (snd (cs_reqs s ! i)) \<noteq> None \<longrightarrow>
            writer_of (snd (cs_reqs s ! j)) = None"
    unfolding single_writer_def by (rule conjunct2)
  from a [rule_format, of j k] assms(2-6) show ?thesis by simp
qed

lemma cstep_single_writer:
  assumes inv: "single_writer s"
  shows "single_writer (cstep H s x)"
proof (cases x)
  case (Pair i ev)
  show ?thesis
  proof (cases "i < length (cs_reqs s)")
    case False with Pair inv show ?thesis by (simp add: cstep_def)
  next
    case True
    define key where "key = fst (cs_reqs s ! i)"
    define pc where "pc = snd (cs_reqs s ! i)"
    define c where "c = cache (cs_proxy s)"
    obtain p' pc' where r: "req_step H (cs_proxy s) key pc ev = (p', pc')"
      by (cases "req_step H (cs_proxy s) key pc ev")
    define rs where "rs = (cs_reqs s)[i := (key, pc')]"
    have s': "cstep H s x = s\<lparr>cs_proxy := p', cs_reqs := rs\<rparr>"
      using Pair True r by (simp add: cstep_def key_def pc_def rs_def)
    have len: "length rs = length (cs_reqs s)" by (simp add: rs_def)
    have at_i: "rs ! i = (key, pc')" using True by (simp add: rs_def)
    have at_j: "\<And>j. j \<noteq> i \<Longrightarrow> rs ! j = cs_reqs s ! j" by (simp add: rs_def)
    have inv1: "\<And>j a. j < length (cs_reqs s) \<Longrightarrow> writer_of (snd (cs_reqs s ! j)) = Some a
                \<Longrightarrow> pending c (fst (cs_reqs s ! j)) = Some a"
      unfolding c_def by (rule single_writer_pending [OF inv])
    have inv2: "\<And>j k. j < length (cs_reqs s) \<Longrightarrow> k < length (cs_reqs s) \<Longrightarrow> j \<noteq> k
                \<Longrightarrow> fst (cs_reqs s ! j) = fst (cs_reqs s ! k)
                \<Longrightarrow> writer_of (snd (cs_reqs s ! j)) \<noteq> None
                \<Longrightarrow> writer_of (snd (cs_reqs s ! k)) = None"
      by (rule single_writer_unique [OF inv])
    have frame: "\<And>k'. k' \<noteq> key \<Longrightarrow> pending (cache p') k' = pending c k'"
      using req_step_frame [OF r] by (simp add: c_def)
    note w = req_step_writer [OF r, folded c_def]
    note nw = req_step_not_writer [OF r, folded c_def]
    \<comment> \<open>another request for the key writes: this one does not, and leaves the key pending\<close>
    have other: "pending (cache p') key = pending c key \<and> writer_of pc' = None"
      if j: "j < length (cs_reqs s)" "j \<noteq> i" "fst (cs_reqs s ! j) = key"
        "writer_of (snd (cs_reqs s ! j)) = Some a" for j a
    proof -
      have pj: "pending c key = Some a" using inv1 [OF j(1) j(4)] j(3) by simp
      have ni: "writer_of pc = None"
        using inv2 [OF j(1) True j(2)] j(3,4) by (simp add: key_def pc_def)
      have n': "writer_of pc' = None"
      proof (cases "writer_of pc'")
        case (Some b) with w [of b] pj ni show ?thesis by auto
      qed simp
      with nw ni show ?thesis by auto
    qed
    have g1: "pending (cache p') (fst (rs ! j)) = Some a"
      if j: "j < length rs" "writer_of (snd (rs ! j)) = Some a" for j a
    proof (cases "j = i")
      case True
      with j at_i have wa: "writer_of pc' = Some a" by simp
      from w [OF wa] show ?thesis
      proof
        assume "writer_of pc = Some a \<and> pending (cache p') key = pending c key"
        with inv1 [of i a] \<open>i < length (cs_reqs s)\<close> True at_i show ?thesis
          by (simp add: key_def pc_def)
      next
        assume "writer_of pc = None \<and> pending c key = None \<and> pending (cache p') key = Some a"
        with True at_i show ?thesis by simp
      qed
    next
      case False
      with j at_j len have jj: "j < length (cs_reqs s)" "writer_of (snd (cs_reqs s ! j)) = Some a"
        and e: "rs ! j = cs_reqs s ! j" by simp_all
      show ?thesis
      proof (cases "fst (cs_reqs s ! j) = key")
        case True
        with other [OF jj(1) False True jj(2)] inv1 [OF jj] e show ?thesis by simp
      next
        case False
        with frame inv1 [OF jj] e show ?thesis by simp
      qed
    qed
    have g2: "writer_of (snd (rs ! k)) = None"
      if jk: "j < length rs" "k < length rs" "j \<noteq> k" "fst (rs ! j) = fst (rs ! k)"
        "writer_of (snd (rs ! j)) \<noteq> None" for j k
    proof -
      consider "j = i" | "k = i" "j \<noteq> i" | "j \<noteq> i" "k \<noteq> i" by blast
      then show ?thesis
      proof cases
        case 1
        with jk at_i at_j [of k] len have k: "k < length (cs_reqs s)" "k \<noteq> i"
          "fst (cs_reqs s ! k) = key" "writer_of pc' \<noteq> None" and e: "rs ! k = cs_reqs s ! k"
          by auto
        show ?thesis
        proof (cases "writer_of (snd (cs_reqs s ! k))")
          case None with e show ?thesis by simp
        next
          case (Some a)
          with other [OF k(1,2,3) Some] k(4) show ?thesis by simp
        qed
      next
        case 2
        with jk at_i at_j [of j] len have j: "j < length (cs_reqs s)"
          "fst (cs_reqs s ! j) = key" "writer_of (snd (cs_reqs s ! j)) \<noteq> None"
          by auto
        then obtain a where "writer_of (snd (cs_reqs s ! j)) = Some a" by auto
        with other [OF j(1) 2(2) j(2)] 2(1) at_i show ?thesis by simp
      next
        case 3
        with jk at_j [of j] at_j [of k] len inv2 [of j k] show ?thesis by simp
      qed
    qed
    have G1: "\<forall>i<length rs. \<forall>a. writer_of (snd (rs ! i)) = Some a \<longrightarrow>
                pending (cache p') (fst (rs ! i)) = Some a"
      by (intro allI impI) (rule g1)
    have G2: "\<forall>i<length rs. \<forall>j<length rs.
                i \<noteq> j \<and> fst (rs ! i) = fst (rs ! j) \<and> writer_of (snd (rs ! i)) \<noteq> None \<longrightarrow>
                writer_of (snd (rs ! j)) = None"
    proof (intro allI impI)
      fix i j assume "i < length rs" "j < length rs"
        "i \<noteq> j \<and> fst (rs ! i) = fst (rs ! j) \<and> writer_of (snd (rs ! i)) \<noteq> None"
      then show "writer_of (snd (rs ! j)) = None" using g2 [of i j] by simp
    qed
    have sel: "cs_reqs (s\<lparr>cs_proxy := p', cs_reqs := rs\<rparr>) = rs"
      "cs_proxy (s\<lparr>cs_proxy := p', cs_reqs := rs\<rparr>) = p'"
      by simp_all
    show ?thesis
      unfolding s' single_writer_def sel using G1 G2 by (rule conjI)
  qed
qed

lemma crun_single_writer: "single_writer s \<Longrightarrow> single_writer (crun H s xs)"
  by (induction xs arbitrary: s) (simp_all add: cstep_single_writer)

lemma single_writer_arrivals: "single_writer (arrivals p keys)"
  by (simp add: single_writer_def arrivals_def)

lemma filter_le_1:
  assumes "\<And>i j. i < length xs \<Longrightarrow> j < length xs \<Longrightarrow> i \<noteq> j \<Longrightarrow> P (xs ! i) \<Longrightarrow> \<not> P (xs ! j)"
  shows "length (filter P xs) \<le> 1"
  using assms
proof (induction xs)
  case Nil show ?case by simp
next
  case (Cons x xs)
  have ih: "length (filter P xs) \<le> 1"
  proof (rule Cons.IH)
    fix i j assume "i < length xs" "j < length xs" "i \<noteq> j" "P (xs ! i)"
    with Cons.prems [of "Suc i" "Suc j"] show "\<not> P (xs ! j)" by simp
  qed
  show ?case
  proof (cases "P x")
    case False with ih show ?thesis by simp
  next
    case True
    have "\<not> P y" if "y \<in> set xs" for y
    proof -
      from that obtain j where "j < length xs" "xs ! j = y" by (auto simp: in_set_conv_nth)
      with Cons.prems [of 0 "Suc j"] True show ?thesis by auto
    qed
    then have "filter P xs = []" by (simp add: filter_empty_conv)
    with True show ?thesis by simp
  qed
qed

lemma single_writer_writers:
  assumes "single_writer s"
  shows "writers s k \<le> 1"
  unfolding writers_def
proof (rule filter_le_1)
  fix i j
  assume "i < length (cs_reqs s)" "j < length (cs_reqs s)" "i \<noteq> j"
    "fst (cs_reqs s ! i) = k \<and> writer_of (snd (cs_reqs s ! i)) \<noteq> None"
  then have "fst (cs_reqs s ! j) = k \<Longrightarrow> writer_of (snd (cs_reqs s ! j)) = None"
    using single_writer_unique [OF assms, of i j] by simp
  then show "\<not> (fst (cs_reqs s ! j) = k \<and> writer_of (snd (cs_reqs s ! j)) \<noteq> None)"
    by blast
qed

lemma reader_not_sent: "reader_of pc = Some a \<Longrightarrow> \<not> has_sent pc"
  by (cases pc) simp_all

lemma sweep:
  assumes "req_step H p k pc0 ev = (p, pc1)"
  shows "crun H \<lparr>cs_proxy = p, cs_reqs = replicate j (k, pc1) @ replicate m (k, pc0)\<rparr>
           (map (\<lambda>i. (i, ev)) [j ..< j + m] @ rest)
       = crun H \<lparr>cs_proxy = p, cs_reqs = replicate (j + m) (k, pc1)\<rparr> rest"
proof (induction m arbitrary: j)
  case 0
  show ?case by simp
next
  case (Suc m)
  have up: "[j ..< j + Suc m] = j # [Suc j ..< Suc j + m]"
    by (simp add: upt_conv_Cons)
  have at: "(replicate j (k, pc1) @ replicate (Suc m) (k, pc0)) ! j = (k, pc0)"
    by (simp add: nth_append)
  have upd: "(replicate j (k, pc1) @ replicate (Suc m) (k, pc0))[j := (k, pc1)]
      = replicate (Suc j) (k, pc1) @ replicate m (k, pc0)"
    by (simp add: list_update_append replicate_append_same)
  have st: "cstep H \<lparr>cs_proxy = p, cs_reqs = replicate j (k, pc1) @ replicate (Suc m) (k, pc0)\<rparr>
              (j, ev)
      = \<lparr>cs_proxy = p, cs_reqs = replicate (Suc j) (k, pc1) @ replicate m (k, pc0)\<rparr>"
    unfolding cstep_def using assms at upd by simp
  show ?case
    unfolding up using st Suc.IH [of "Suc j"] by simp
qed

lemma sweep_all:
  assumes "req_step H p k pc0 ev = (p, pc1)"
  shows "crun H \<lparr>cs_proxy = p, cs_reqs = replicate n (k, pc0)\<rparr>
           (map (\<lambda>i. (i, ev)) [0 ..< n] @ rest)
       = crun H \<lparr>cs_proxy = p, cs_reqs = replicate n (k, pc1)\<rparr> rest"
  using sweep [OF assms, of 0 n rest] by simp

lemma storm_fetching:
  assumes fl: "fetchLocks p k = None" and pe: "pending (cache p) k = None"
  shows "\<exists>p1. cache p1 = cache p
    \<and> crun H (arrivals p (replicate n k)) (storm n)
        = \<lparr>cs_proxy = (if n = 0 then p else p1),
           cs_reqs = replicate n (k, Fetching (length (locks p)))\<rparr>"
proof (cases n)
  case 0
  then have "cache p = cache p
    \<and> crun H (arrivals p (replicate n k)) (storm n)
        = \<lparr>cs_proxy = (if n = 0 then p else p),
           cs_reqs = replicate n (k, Fetching (length (locks p)))\<rparr>"
    by (simp add: storm_def arrivals_def)
  then show ?thesis by (rule exI)
next
  case (Suc m)
  let ?l = "length (locks p)"
  define p1 where "p1 = p\<lparr>locks := locks p @ [\<lparr>fl_done = False, fl_err = None\<rparr>],
                          fetchLocks := (fetchLocks p)(k \<mapsto> ?l)\<rparr>"
  let ?checks = "map (\<lambda>i. (i, EvCheck)) [0 ..< n]"
  let ?sends = "map (\<lambda>i. (i, EvSend True)) [0 ..< n]"
  have l0: "req_step H p k Arrived EvLoad = (p1, Loaded ?l)"
    using fl by (simp add: LoadOrStore_def p1_def)
  have l1: "req_step H p1 k Arrived EvLoad = (p1, Loaded ?l)"
    by (simp add: LoadOrStore_def p1_def)
  have ck: "req_step H p1 k (Loaded ?l) EvCheck = (p1, ToFetch ?l)"
    using pe by (simp add: p1_def GetPending_def)
  have se: "req_step H p1 k (ToFetch ?l) (EvSend True) = (p1, Fetching ?l)"
    by simp
  have up: "[0 ..< n] = 0 # [Suc 0 ..< Suc 0 + m]"
    using Suc by (simp add: upt_conv_Cons)
  have first: "cstep H (arrivals p (replicate n k)) (0, EvLoad)
      = \<lparr>cs_proxy = p1, cs_reqs = replicate (Suc 0) (k, Loaded ?l) @ replicate m (k, Arrived)\<rparr>"
    using l0 Suc by (simp add: cstep_def arrivals_def)
  have "crun H (arrivals p (replicate n k)) (storm n)
      = crun H \<lparr>cs_proxy = p1,
                cs_reqs = replicate (Suc 0) (k, Loaded ?l) @ replicate m (k, Arrived)\<rparr>
          (map (\<lambda>i. (i, EvLoad)) [Suc 0 ..< Suc 0 + m] @ (?checks @ ?sends))"
    unfolding storm_def up [THEN arg_cong, of "map (\<lambda>i. (i, EvLoad))"] using first
    by (simp del: upt_Suc)
  also have "\<dots> = crun H \<lparr>cs_proxy = p1, cs_reqs = replicate n (k, Loaded ?l)\<rparr> (?checks @ ?sends)"
    using sweep [OF l1, of "Suc 0" m "?checks @ ?sends"] Suc by simp
  also have "\<dots> = crun H \<lparr>cs_proxy = p1, cs_reqs = replicate n (k, ToFetch ?l)\<rparr> (?sends @ [])"
    using sweep_all [OF ck, of n ?sends] by simp
  also have "\<dots> = \<lparr>cs_proxy = p1, cs_reqs = replicate n (k, Fetching ?l)\<rparr>"
    using sweep_all [OF se, of n "[]"] by simp
  finally have "crun H (arrivals p (replicate n k)) (storm n)
      = \<lparr>cs_proxy = p1, cs_reqs = replicate n (k, Fetching ?l)\<rparr>" .
  moreover have "cache p1 = cache p" by (simp add: p1_def)
  ultimately show ?thesis using Suc by auto
qed

lemma storm_inflight:
  assumes "fetchLocks p k = None" and "pending (cache p) k = None"
  shows "inflight (crun H (arrivals p (replicate n k)) (storm n)) k = n"
proof -
  from storm_fetching [OF assms, of H n] obtain p1 where
    "crun H (arrivals p (replicate n k)) (storm n)
       = \<lparr>cs_proxy = (if n = 0 then p else p1),
          cs_reqs = replicate n (k, Fetching (length (locks p)))\<rparr>" by blast
  then show ?thesis by (simp add: inflight_def)
qed

lemma storm_issued:
  assumes "fetchLocks p k = None" and "pending (cache p) k = None"
  shows "issued (crun H (arrivals p (replicate n k)) (storm n)) k = n"
proof -
  from storm_fetching [OF assms, of H n] obtain p1 where
    "crun H (arrivals p (replicate n k)) (storm n)
       = \<lparr>cs_proxy = (if n = 0 then p else p1),
          cs_reqs = replicate n (k, Fetching (length (locks p)))\<rparr>" by blast
  then show ?thesis by (simp add: issued_def)
qed

lemma crun_snoc: "crun H s (xs @ [x]) = cstep H (crun H s xs) x"
  by (simp add: crun_append)

lemma cstep_reader:
  assumes i: "i < length (cs_reqs s)"
    and r: "reader_of (snd (cs_reqs (cstep H s x) ! i)) = Some a"
  shows "reader_of (snd (cs_reqs s ! i)) = Some a
       \<or> (x = (i, EvCheck) \<and> pending (cache (cs_proxy s)) (fst (cs_reqs s ! i)) = Some a)"
proof (cases x)
  case (Pair j ev)
  show ?thesis
  proof (cases "j = i")
    case False
    with Pair r show ?thesis
      by (cases "j < length (cs_reqs s)") (simp_all add: cstep_def case_prod_beta)
  next
    case True
    obtain p' pc' where st: "req_step H (cs_proxy s) (fst (cs_reqs s ! i)) (snd (cs_reqs s ! i)) ev
        = (p', pc')"
      by (cases "req_step H (cs_proxy s) (fst (cs_reqs s ! i)) (snd (cs_reqs s ! i)) ev")
    with Pair True i r have "reader_of pc' = Some a" by (simp add: cstep_def)
    from req_step_reader [OF st this] Pair True show ?thesis by auto
  qed
qed

lemma crun_reader:
  assumes "i < length (cs_reqs s)"
    and "reader_of (snd (cs_reqs (crun H s xs) ! i)) = Some a"
    and "reader_of (snd (cs_reqs s ! i)) = None"
  shows "\<exists>n < length xs. xs ! n = (i, EvCheck)
           \<and> pending (cache (cs_proxy (crun H s (take n xs)))) (fst (cs_reqs s ! i)) = Some a"
  using assms(2)
proof (induction xs rule: rev_induct)
  case Nil
  with assms(3) show ?case by simp
next
  case (snoc x xs)
  let ?t = "crun H s xs"
  have it: "i < length (cs_reqs ?t)" using assms(1) by simp
  have kt: "fst (cs_reqs ?t ! i) = fst (cs_reqs s ! i)"
    using crun_keys [of H s xs] assms(1) by (metis length_map nth_map)
  from snoc.prems have "reader_of (snd (cs_reqs (cstep H ?t x) ! i)) = Some a"
    by (simp add: crun_snoc)
  from cstep_reader [OF it this] show ?case
  proof
    assume "reader_of (snd (cs_reqs ?t ! i)) = Some a"
    from snoc.IH [OF this] obtain n where "n < length xs" "xs ! n = (i, EvCheck)"
      "pending (cache (cs_proxy (crun H s (take n xs)))) (fst (cs_reqs s ! i)) = Some a"
      by blast
    then have "n < length (xs @ [x]) \<and> (xs @ [x]) ! n = (i, EvCheck)
      \<and> pending (cache (cs_proxy (crun H s (take n (xs @ [x]))))) (fst (cs_reqs s ! i)) = Some a"
      by (simp add: nth_append)
    then show ?thesis by blast
  next
    assume "x = (i, EvCheck) \<and> pending (cache (cs_proxy ?t)) (fst (cs_reqs ?t ! i)) = Some a"
    with kt have "length xs < length (xs @ [x]) \<and> (xs @ [x]) ! length xs = (i, EvCheck)
      \<and> pending (cache (cs_proxy (crun H s (take (length xs) (xs @ [x])))))
           (fst (cs_reqs s ! i)) = Some a"
      by simp
    then show ?thesis by blast
  qed
qed

text \<open>
  Claim C1, as the code has it. In every interleaving of the steps of any number of
  requests that have missed the caches, on any keys and from any state of the proxy:
  \<^item> at most one request at a time writes a key's StreamingFile (the request that
    \<open>GetOrCreatePending\<close> gave \<open>isNew = true\<close>), and the key is pending with that file
    while it writes;
  \<^item> a request that is served as a reader of a StreamingFile has sent no upstream GET at
    any moment of the run;
  \<^item> a request whose check in \<open>fetchAndServe\<close> finds its lock not done becomes a reader
    of a StreamingFile exactly when it finds the key pending with that file, and every
    reader became one at such a check;
  \<^item> the requests that pass the check before any of them has a response each send their
    own GET: in a storm of \<open>n\<close> requests for a key that has no lock and is not pending,
    \<open>n\<close> upstream GETs are in flight.
\<close>

theorem C1_single_writer_per_key:
  "writers (crun H (arrivals p keys) xs) k \<le> 1
   \<and> (\<forall>i < length keys. \<forall>a.
         writer_of (snd (cs_reqs (crun H (arrivals p keys) xs) ! i)) = Some a \<longrightarrow>
         pending (cache (cs_proxy (crun H (arrivals p keys) xs))) (keys ! i) = Some a)
   \<and> (\<forall>i < length keys. \<forall>m.
         reader_of (snd (cs_reqs (crun H (arrivals p keys) xs) ! i)) \<noteq> None \<longrightarrow>
         \<not> has_sent (snd (cs_reqs (crun H (arrivals p keys) (take m xs)) ! i)))
   \<and> (\<forall>i < length keys. \<forall>lock a.
         snd (cs_reqs (crun H (arrivals p keys) xs) ! i) = Loaded lock
         \<and> \<not> fl_done (locks (cs_proxy (crun H (arrivals p keys) xs)) ! lock) \<longrightarrow>
         (snd (cs_reqs (crun H (arrivals p keys) (xs @ [(i, EvCheck)])) ! i) = Reading a)
           = (pending (cache (cs_proxy (crun H (arrivals p keys) xs))) (keys ! i) = Some a))
   \<and> (\<forall>i < length keys. \<forall>a.
         reader_of (snd (cs_reqs (crun H (arrivals p keys) xs) ! i)) = Some a \<longrightarrow>
         (\<exists>m < length xs. xs ! m = (i, EvCheck)
            \<and> pending (cache (cs_proxy (crun H (arrivals p keys) (take m xs)))) (keys ! i)
                = Some a))
   \<and> (fetchLocks p k = None \<and> pending (cache p) k = None \<longrightarrow>
         inflight (crun H (arrivals p (replicate n k)) (storm n)) k = n
         \<and> issued (crun H (arrivals p (replicate n k)) (storm n)) k = n)"
proof (intro conjI allI impI)
  define s where "s = crun H (arrivals p keys) xs"
  have sw: "single_writer s"
    unfolding s_def by (rule crun_single_writer [OF single_writer_arrivals])
  have ks: "map fst (cs_reqs s) = keys"
    by (simp add: s_def arrivals_def comp_def)
  have len: "length (cs_reqs s) = length keys"
    using ks by (metis length_map)
  have key: "fst (cs_reqs s ! i) = keys ! i" if "i < length keys" for i
    using ks that len by (metis nth_map)
  show "writers (crun H (arrivals p keys) xs) k \<le> 1"
    using single_writer_writers [OF sw] by (simp add: s_def)
  {
    fix i a
    assume i: "i < length keys"
      and w: "writer_of (snd (cs_reqs (crun H (arrivals p keys) xs) ! i)) = Some a"
    with single_writer_pending [OF sw, of i a] key [OF i] len
    show "pending (cache (cs_proxy (crun H (arrivals p keys) xs))) (keys ! i) = Some a"
      by (simp add: s_def)
  }
  {
    fix i m
    assume i: "i < length keys"
      and r: "reader_of (snd (cs_reqs (crun H (arrivals p keys) xs) ! i)) \<noteq> None"
    define t where "t = crun H (arrivals p keys) (take m xs)"
    have st: "s = crun H t (drop m xs)"
      using crun_append [of H "arrivals p keys" "take m xs" "drop m xs"]
      by (simp add: s_def t_def)
    have lt: "i < length (cs_reqs t)"
      using i by (simp add: t_def arrivals_def)
    from r obtain a where "reader_of (snd (cs_reqs s ! i)) = Some a"
      by (auto simp: s_def)
    then have ns: "\<not> has_sent (snd (cs_reqs s ! i))" by (rule reader_not_sent)
    show "\<not> has_sent (snd (cs_reqs (crun H (arrivals p keys) (take m xs)) ! i))"
    proof
      assume "has_sent (snd (cs_reqs (crun H (arrivals p keys) (take m xs)) ! i))"
      then have "has_sent (snd (cs_reqs t ! i))" by (simp add: t_def)
      from crun_has_sent [OF lt this, of H "drop m xs"] st ns show False by simp
    qed
  }
  {
    fix i lock a
    assume i: "i < length keys"
      and l: "snd (cs_reqs (crun H (arrivals p keys) xs) ! i) = Loaded lock
         \<and> \<not> fl_done (locks (cs_proxy (crun H (arrivals p keys) xs)) ! lock)"
    from l have pc: "snd (cs_reqs s ! i) = Loaded lock"
      and nd: "\<not> fl_done (locks (cs_proxy s) ! lock)" by (simp_all add: s_def)
    have "snd (cs_reqs (cstep H s (i, EvCheck)) ! i) = Reading a
      \<longleftrightarrow> pending (cache (cs_proxy s)) (keys ! i) = Some a"
      using i len pc nd key [OF i]
      by (auto simp: cstep_def GetPending_def split: option.splits)
    then show "(snd (cs_reqs (crun H (arrivals p keys) (xs @ [(i, EvCheck)])) ! i) = Reading a)
        = (pending (cache (cs_proxy (crun H (arrivals p keys) xs))) (keys ! i) = Some a)"
      by (simp add: crun_snoc s_def)
  }
  {
    fix i a
    assume i: "i < length keys"
      and r: "reader_of (snd (cs_reqs (crun H (arrivals p keys) xs) ! i)) = Some a"
    have "i < length (cs_reqs (arrivals p keys))"
      and "reader_of (snd (cs_reqs (arrivals p keys) ! i)) = None"
      and "fst (cs_reqs (arrivals p keys) ! i) = keys ! i"
      using i by (simp_all add: arrivals_def)
    with crun_reader [of i "arrivals p keys" H xs a] r
    show "\<exists>m < length xs. xs ! m = (i, EvCheck)
            \<and> pending (cache (cs_proxy (crun H (arrivals p keys) (take m xs)))) (keys ! i)
                = Some a"
      by simp
  }
  {
    assume "fetchLocks p k = None \<and> pending (cache p) k = None"
    then have f: "fetchLocks p k = None" and q: "pending (cache p) k = None" by simp_all
    show "inflight (crun H (arrivals p (replicate n k)) (storm n)) k = n"
      using f q by (rule storm_inflight)
    show "issued (crun H (arrivals p (replicate n k)) (storm n)) k = n"
      using f q by (rule storm_issued)
  }
qed

lemmas run_defs = storm_def arrivals_def p_empty_def empty_cache_def cstep_def LoadOrStore_def
  GetPending_def upt_rec NewLRU_def c1_late_def c1_responses_def c4_race_def up_hello_def
  GetOrCreatePending_def NewStreamingFile_def os_Create_def filePath_def cfg0_def fs0_def H0_def
  sf_Write_def file_Write_def takePending_def disposition_def storeCompleted_def abortTaken_def
  sf_Complete_def sf_Abort_def evictIfNeeded.simps lru_Add_def lru_del_def onEvict_def
  finishLock_def PutNotFound_def Let_def

text \<open>
  The witness: the second request for \<open>/a\<close> arrives when the first has its response. The
  first one is the writer of StreamingFile 0 and \<open>/a\<close> is pending with it; the second
  one finds its lock not done and \<open>/a\<close> pending, becomes a reader of StreamingFile 0 and
  has sent no GET. And a storm of three requests for \<open>/a\<close> on the empty proxy has three
  GETs in flight.
\<close>

theorem C1_single_writer_witness:
  "writers (crun H0 (arrivals p_empty [''/a'', ''/a'']) c1_late) ''/a'' \<le> 1
   \<and> writer_of (snd (cs_reqs (crun H0 (arrivals p_empty [''/a'', ''/a'']) c1_late) ! 0)) = Some 0
   \<and> pending (cache (cs_proxy (crun H0 (arrivals p_empty [''/a'', ''/a'']) c1_late))) ''/a''
       = Some 0
   \<and> reader_of (snd (cs_reqs (crun H0 (arrivals p_empty [''/a'', ''/a'']) c1_late) ! 1)) = Some 0
   \<and> \<not> has_sent (snd (cs_reqs (crun H0 (arrivals p_empty [''/a'', ''/a''])
                                  (take 3 c1_late)) ! 1))
   \<and> snd (cs_reqs (crun H0 (arrivals p_empty [''/a'', ''/a'']) (take 5 c1_late)) ! 1) = Loaded 0
   \<and> \<not> fl_done (locks (cs_proxy (crun H0 (arrivals p_empty [''/a'', ''/a''])
                                    (take 5 c1_late))) ! 0)
   \<and> pending (cache (cs_proxy (crun H0 (arrivals p_empty [''/a'', ''/a''])
                                 (take 5 c1_late)))) ''/a'' = Some 0
   \<and> fetchLocks p_empty ''/a'' = None
   \<and> pending (cache p_empty) ''/a'' = None
   \<and> inflight (crun H0 (arrivals p_empty (replicate 3 ''/a'')) (storm 3)) ''/a'' = 3"
proof -
  let ?ks = "[''/a'', ''/a'']"
  have w: "writer_of (snd (cs_reqs (crun H0 (arrivals p_empty ?ks) c1_late) ! 0)) = Some 0"
    by (simp add: run_defs)
  have r: "reader_of (snd (cs_reqs (crun H0 (arrivals p_empty ?ks) c1_late) ! 1)) = Some 0"
    by (simp add: run_defs)
  have l: "snd (cs_reqs (crun H0 (arrivals p_empty ?ks) (take 5 c1_late)) ! 1) = Loaded 0"
    by (simp add: run_defs)
  have d: "\<not> fl_done (locks (cs_proxy (crun H0 (arrivals p_empty ?ks) (take 5 c1_late))) ! 0)"
    by (simp add: run_defs)
  have rd: "snd (cs_reqs (crun H0 (arrivals p_empty ?ks) (take 5 c1_late @ [(1, EvCheck)])) ! 1)
            = Reading 0"
    by (simp add: run_defs)
  have f: "fetchLocks p_empty ''/a'' = None" and q: "pending (cache p_empty) ''/a'' = None"
    by (simp_all add: p_empty_def empty_cache_def)
  note c1 = C1_single_writer_per_key [of H0 p_empty ?ks c1_late "''/a''" 3]
  note c1' = C1_single_writer_per_key [of H0 p_empty ?ks "take 5 c1_late" "''/a''" 3]
  from c1 have n: "writers (crun H0 (arrivals p_empty ?ks) c1_late) ''/a'' \<le> 1"
    by (rule conjunct1)
  from c1 have "\<forall>i < length ?ks. \<forall>a.
         writer_of (snd (cs_reqs (crun H0 (arrivals p_empty ?ks) c1_late) ! i)) = Some a \<longrightarrow>
         pending (cache (cs_proxy (crun H0 (arrivals p_empty ?ks) c1_late))) (?ks ! i) = Some a"
    by (rule conjunct1 [OF conjunct2])
  from this [rule_format, of 0 0] w
  have pe: "pending (cache (cs_proxy (crun H0 (arrivals p_empty ?ks) c1_late))) ''/a'' = Some 0"
    by simp
  from c1 have "\<forall>i < length ?ks. \<forall>m.
         reader_of (snd (cs_reqs (crun H0 (arrivals p_empty ?ks) c1_late) ! i)) \<noteq> None \<longrightarrow>
         \<not> has_sent (snd (cs_reqs (crun H0 (arrivals p_empty ?ks) (take m c1_late)) ! i))"
    by (rule conjunct1 [OF conjunct2 [OF conjunct2]])
  from this [rule_format, of 1 3] r
  have ns: "\<not> has_sent (snd (cs_reqs (crun H0 (arrivals p_empty ?ks) (take 3 c1_late)) ! 1))"
    by simp
  from c1' have "\<forall>i < length ?ks. \<forall>lock a.
         snd (cs_reqs (crun H0 (arrivals p_empty ?ks) (take 5 c1_late)) ! i) = Loaded lock
         \<and> \<not> fl_done (locks (cs_proxy (crun H0 (arrivals p_empty ?ks) (take 5 c1_late))) ! lock)
         \<longrightarrow>
         (snd (cs_reqs (crun H0 (arrivals p_empty ?ks) (take 5 c1_late @ [(i, EvCheck)])) ! i)
            = Reading a)
           = (pending (cache (cs_proxy (crun H0 (arrivals p_empty ?ks) (take 5 c1_late))))
                (?ks ! i) = Some a)"
    by (rule conjunct1 [OF conjunct2 [OF conjunct2 [OF conjunct2]]])
  from this [rule_format, of 1 0 0] l d rd
  have pl: "pending (cache (cs_proxy (crun H0 (arrivals p_empty ?ks) (take 5 c1_late)))) ''/a''
            = Some 0"
    by simp
  from c1 have "fetchLocks p_empty ''/a'' = None \<and> pending (cache p_empty) ''/a'' = None \<longrightarrow>
         inflight (crun H0 (arrivals p_empty (replicate 3 ''/a'')) (storm 3)) ''/a'' = 3
         \<and> issued (crun H0 (arrivals p_empty (replicate 3 ''/a'')) (storm 3)) ''/a'' = 3"
    by (rule conjunct2 [OF conjunct2 [OF conjunct2 [OF conjunct2 [OF conjunct2]]]])
  with f q have fl: "inflight (crun H0 (arrivals p_empty (replicate 3 ''/a'')) (storm 3)) ''/a'' = 3"
    by simp
  from n w pe r ns l d pl f q fl show ?thesis by (intro conjI)
qed

text \<open>
  The claim as stated fails: the upstream GET is sent before \<open>GetOrCreatePending\<close>, and
  the check of \<open>fetchAndServe\<close> finds a key pending only once a fetcher has its response.
  Two requests for \<open>/a\<close> that pass the check before either has a response both send a
  GET: two GETs are in flight, two have been issued, and the second request, which
  receives \<open>isNew = false\<close>, is not a reader of the first one's StreamingFile.
\<close>

theorem C1_counterexample:
  "inflight (crun H0 (arrivals p_empty [''/a'', ''/a'']) (storm 2)) ''/a'' = 2
   \<and> issued (crun H0 (arrivals p_empty [''/a'', ''/a'']) (storm 2 @ c1_responses)) ''/a'' = 2
   \<and> snd (cs_reqs (crun H0 (arrivals p_empty [''/a'', ''/a'']) (storm 2 @ c1_responses)) ! 1)
       = Streaming 0 False 0 5 ''text/plain''"
  by (simp add: run_defs inflight_def issued_def)

text \<open>
  Claim C4 on the code. Two requests for \<open>/a\<close> miss together on the empty proxy and both
  send their GET. The first one receives \<open>hello\<close>, completes the pending entry and
  returns: \<open>/a\<close> is in the completed store with its 5 bytes on disk and is not pending.
  Then the response of the second one arrives: \<open>GetOrCreatePending\<close> looks at the pending
  map only, so it makes a new pending entry and \<open>os.Create\<close> truncates the file. Now
  \<open>Get\<close> returns the completed entry of \<open>/a\<close> and \<open>GetPending\<close> returns a StreamingFile
  for \<open>/a\<close>: the key is in the completed store and in the pending map, and the file of
  the completed entry is empty.
\<close>

theorem C4_completed_and_pending_after_race:
  "snd (Get (cache (cs_proxy (crun H0 (arrivals p_empty [''/a'', ''/a'']) (butlast c4_race))))
         11 ''/a'')
     = Some \<lparr>Key = ''/a'', FilePath = ''/c/00/00a'', Size = 5, ContentType = ''text/plain'',
             CreatedAt = 10\<rparr>
   \<and> GetPending (cache (cs_proxy (crun H0 (arrivals p_empty [''/a'', ''/a''])
                                    (butlast c4_race)))) ''/a'' = None
   \<and> files (disk (cache (cs_proxy (crun H0 (arrivals p_empty [''/a'', ''/a''])
                                      (butlast c4_race))))) ''/c/00/00a'' = Some ''hello''
   \<and> snd (Get (cache (cs_proxy (crun H0 (arrivals p_empty [''/a'', ''/a'']) c4_race))) 11 ''/a'')
     = Some \<lparr>Key = ''/a'', FilePath = ''/c/00/00a'', Size = 5, ContentType = ''text/plain'',
             CreatedAt = 10\<rparr>
   \<and> GetPending (cache (cs_proxy (crun H0 (arrivals p_empty [''/a'', ''/a'']) c4_race))) ''/a''
     = Some 1
   \<and> files (disk (cache (cs_proxy (crun H0 (arrivals p_empty [''/a'', ''/a'']) c4_race))))
       ''/c/00/00a'' = Some []
   \<and> snd (cs_reqs (crun H0 (arrivals p_empty [''/a'', ''/a'']) c4_race) ! 1)
     = Streaming 1 True 0 5 ''text/plain''"
  by (simp add: run_defs Get_def lru_Get_def)


end
